theory Spec2Isabelle
  imports Main "HOL-Library.Word"
begin

section \<open>Bytes, errors and panics\<close>

type_synonym byte = "8 word"

text \<open>
  An \<open>error\<close> is a Go error value returned to the caller. \<open>Errorf p e\<close> is the value of
  \<^verbatim>\<open>fmt.Errorf("p: %w", e)\<close>: the error \<open>e\<close> wrapped under the prefix \<open>p\<close>.
  A \<open>panic\<close> ends the call without a result.
\<close>

datatype error =
    ErrShortWrite
  | ErrUnexpectedEOF
  | ErrElement
  | Errorf string error

datatype panic =
    NotComply string string
  | IndexOutOfRange nat nat

text \<open>Fixed-width little-endian integers, the primitive encoding of a count.\<close>

fun put_le :: "nat \<Rightarrow> nat \<Rightarrow> byte list" where
  "put_le 0 n = []"
| "put_le (Suc k) n = of_nat n # put_le k (n div 256)"

fun get_le :: "byte list \<Rightarrow> nat" where
  "get_le [] = 0"
| "get_le (b # bs) = unat b + 256 * get_le bs"

section \<open>The buffered stream adapter\<close>

text \<open>
  Modelled from the spec: the package \<^verbatim>\<open>utils/buffer\<close> (the interfaces
  \<^verbatim>\<open>buffer.Writer\<close> and \<^verbatim>\<open>buffer.Reader\<close>, \<^verbatim>\<open>buffer.Buffer\<close>, \<^verbatim>\<open>WriteAsUint64\<close>,
  \<^verbatim>\<open>ReadAsUint64\<close>) and the decorators of \<^verbatim>\<open>bufio\<close> are not among the sources.
  The spec (4.2) gives a sink \<open>write(bytes)\<close> and \<open>flush()\<close> and a source \<open>read\<close>, and a
  buffering decorator around an arbitrary byte channel.

  An \<^verbatim>\<open>io.Writer\<close> is one of
  \<^item> \<open>Sink s\<close>: an arbitrary byte channel that is not a \<^verbatim>\<open>buffer.Writer\<close>; it has
    accepted the bytes \<open>accepted s\<close> and takes \<open>quota s\<close> more bytes before its writes fail;
  \<^item> \<open>Bufio sz pending w\<close>: a buffering decorator around the writer \<open>w\<close>, holding the
    bytes \<open>pending\<close> that have not reached \<open>w\<close> yet;
  \<^item> \<open>Buffer c bs\<close>: an in-memory buffer of capacity \<open>c\<close> holding \<open>bs\<close>; it grows when
    the bytes outgrow its capacity.
  The last two implement \<^verbatim>\<open>buffer.Writer\<close>.
\<close>

record sink =
  accepted :: "byte list"
  quota :: nat

datatype io_writer =
    Sink sink
  | Bufio nat "byte list" io_writer
  | Buffer nat "byte list"

fun is_buffer_Writer :: "io_writer \<Rightarrow> bool" where
  "is_buffer_Writer (Sink s) = False"
| "is_buffer_Writer (Bufio sz pending w) = True"
| "is_buffer_Writer (Buffer c bs) = True"

text \<open>
  Modelled from the spec: \<open>Write\<close> returns the number of bytes taken, the error and the
  writer afterwards. A decorator keeps the bytes while they fit its buffer, and hands its
  buffer and the new bytes to the wrapped writer when they do not.
\<close>

fun Write :: "byte list \<Rightarrow> io_writer \<Rightarrow> nat \<times> error option \<times> io_writer" where
  "Write bs (Sink s) =
     (if length bs \<le> quota s
      then (length bs, None, Sink (s\<lparr>accepted := accepted s @ bs, quota := quota s - length bs\<rparr>))
      else (quota s, Some ErrShortWrite,
            Sink (s\<lparr>accepted := accepted s @ take (quota s) bs, quota := 0\<rparr>)))"
| "Write bs (Buffer c b) = (length bs, None, Buffer (max c (length (b @ bs))) (b @ bs))"
| "Write bs (Bufio sz pending w) =
     (if length pending + length bs \<le> sz
      then (length bs, None, Bufio sz (pending @ bs) w)
      else (case Write (pending @ bs) w of
              (k, None, w') \<Rightarrow> (length bs, None, Bufio sz [] w')
            | (k, Some err, w') \<Rightarrow> (k - length pending, Some err, Bufio sz (drop k pending) w')))"

fun Flush :: "io_writer \<Rightarrow> error option \<times> io_writer" where
  "Flush (Bufio sz pending w) =
     (case Write pending w of
        (k, None, w') \<Rightarrow> (None, Bufio sz [] w')
      | (k, Some err, w') \<Rightarrow> (Some err, Bufio sz (drop k pending) w'))"
| "Flush (Buffer c b) = (None, Buffer c b)"
| "Flush (Sink s) = (None, Sink s)"

text \<open>\<^verbatim>\<open>bufio.NewWriter(w)\<close>: a decorator of the default size with an empty buffer.\<close>

definition bufio_NewWriter :: "io_writer \<Rightarrow> io_writer" where
  "bufio_NewWriter w = Bufio 4096 [] w"

text \<open>\<^verbatim>\<open>buffer.NewBufferSize(size)\<close>: an empty in-memory buffer of capacity \<open>size\<close>.\<close>

definition NewBufferSize :: "nat \<Rightarrow> io_writer" where
  "NewBufferSize sz = Buffer sz []"

text \<open>\<^verbatim>\<open>buf.Bytes()\<close> of an in-memory buffer.\<close>

fun Bytes :: "io_writer \<Rightarrow> byte list" where
  "Bytes (Buffer c b) = b"
| "Bytes (Sink s) = []"
| "Bytes (Bufio sz pending w) = []"

text \<open>
  The bytes a writer has taken so far, in order: those that reached the channel followed
  by those still pending in decorators. \<open>pending_bytes\<close> are the latter alone.
\<close>

fun stream :: "io_writer \<Rightarrow> byte list" where
  "stream (Sink s) = accepted s"
| "stream (Buffer c b) = b"
| "stream (Bufio sz pending w) = stream w @ pending"

fun pending_bytes :: "io_writer \<Rightarrow> byte list" where
  "pending_bytes (Sink s) = []"
| "pending_bytes (Buffer c b) = []"
| "pending_bytes (Bufio sz pending w) = pending_bytes w @ pending"

text \<open>The number of buffering decorators around the channel.\<close>

fun wraps :: "io_writer \<Rightarrow> nat" where
  "wraps (Sink s) = 0"
| "wraps (Buffer c b) = 0"
| "wraps (Bufio sz pending w) = Suc (wraps w)"

text \<open>
  What no write changes of a writer: the decorators and their sizes, and for a channel
  the number of bytes it takes in all (those accepted and those it still has room for).
\<close>

fun frame :: "io_writer \<Rightarrow> io_writer" where
  "frame (Sink s) = Sink \<lparr>accepted = [], quota = length (accepted s) + quota s\<rparr>"
| "frame (Buffer c b) = Buffer 0 []"
| "frame (Bufio sz pending w) = Bufio sz [] (frame w)"

text \<open>
  Modelled from the spec: \<^verbatim>\<open>buffer.WriteAsUint64[int](w, c)\<close> writes the count \<open>c\<close> as
  eight bytes (a \<open>u64\<close>, section 6).
\<close>

definition WriteAsUint64 :: "nat \<Rightarrow> io_writer \<Rightarrow> nat \<times> error option \<times> io_writer" where
  "WriteAsUint64 c w = Write (put_le 8 c) w"

text \<open>
  Modelled from the spec: an \<^verbatim>\<open>io.Reader\<close> is a \<open>Source\<close> (an arbitrary byte channel) or a
  \<open>Reader\<close> (a \<^verbatim>\<open>buffer.Reader\<close>: the decorator of \<^verbatim>\<open>bufio\<close> or an in-memory buffer),
  each standing before the bytes it has left. The model keeps the position of the reader
  that the codec reads from; what a decorator has read ahead from its channel is not part
  of it.
\<close>

datatype io_reader =
    Source "byte list"
  | Reader "byte list"

fun is_buffer_Reader :: "io_reader \<Rightarrow> bool" where
  "is_buffer_Reader (Source bs) = False"
| "is_buffer_Reader (Reader bs) = True"

fun remaining :: "io_reader \<Rightarrow> byte list" where
  "remaining (Source bs) = bs"
| "remaining (Reader bs) = bs"

fun seek :: "byte list \<Rightarrow> io_reader \<Rightarrow> io_reader" where
  "seek bs' (Source bs) = Source bs'"
| "seek bs' (Reader bs) = Reader bs'"

definition bufio_NewReader :: "io_reader \<Rightarrow> io_reader" where
  "bufio_NewReader r = Reader (remaining r)"

definition NewBuffer :: "byte list \<Rightarrow> io_reader" where
  "NewBuffer p = Reader p"

text \<open>
  Modelled from the spec: \<^verbatim>\<open>buffer.ReadAsUint64[int](r, &c)\<close> reads a count of eight bytes;
  a source with fewer bytes left is a short read.
\<close>

definition ReadAsUint64 :: "io_reader \<Rightarrow> nat \<times> (error + nat) \<times> io_reader" where
  "ReadAsUint64 r =
     (if length (remaining r) < 8 then (0, Inl ErrUnexpectedEOF, r)
      else (8, Inr (get_le (take 8 (remaining r))), seek (drop 8 (remaining r)) r))"

section \<open>Element types\<close>

text \<open>
  The type parameter \<open>T\<close> of \<^verbatim>\<open>Matrix[T]\<close> as the code sees it: the dynamic type of the zero
  value \<^verbatim>\<open>var t T\<close> (\<open>kind\<close>: one of the twelve numeric kinds of the type switch, or another
  type, with its name), the method \<^verbatim>\<open>CopyNew\<close> when \<open>T\<close> implements \<^verbatim>\<open>CopyNewer[T]\<close>, the
  method \<^verbatim>\<open>Equal\<close> when it implements \<^verbatim>\<open>Equatable[T]\<close>, and the encoding of one element:
  its size, \<open>put\<close> (the bytes an element writes, or its error) and \<open>get\<close> (the element read
  from the front of the bytes and the bytes after it, or an error). For a numeric kind
  the encoding is the primitive one, for another type the type's own stream codec.
  Values of a numeric kind are compared with HOL equality.
\<close>

datatype kind =
    Kuint | Kuint64 | Kuint32 | Kuint16 | Kuint8
  | Kint | Kint64 | Kint32 | Kint16 | Kint8
  | Kfloat64 | Kfloat32
  | Kother string

record 'a elem_type =
  kind :: kind
  CopyNewer :: "('a \<Rightarrow> 'a) option"
  Equatable :: "('a \<Rightarrow> 'a \<Rightarrow> bool) option"
  size_of :: "'a \<Rightarrow> nat"
  put :: "'a \<Rightarrow> error + byte list"
  get :: "byte list \<Rightarrow> error + 'a \<times> byte list"

text \<open>The first case of the type switch in \<^verbatim>\<open>CopyNew\<close> and \<^verbatim>\<open>Equal\<close>.\<close>

fun is_primitive :: "kind \<Rightarrow> bool" where
  "is_primitive (Kother name) = False"
| "is_primitive k = True"

text \<open>What \<^verbatim>\<open>%T\<close> prints for a value of the type.\<close>

fun type_name :: "kind \<Rightarrow> string" where
  "type_name Kuint = ''uint''"
| "type_name Kuint64 = ''uint64''"
| "type_name Kuint32 = ''uint32''"
| "type_name Kuint16 = ''uint16''"
| "type_name Kuint8 = ''uint8''"
| "type_name Kint = ''int''"
| "type_name Kint64 = ''int64''"
| "type_name Kint32 = ''int32''"
| "type_name Kint16 = ''int16''"
| "type_name Kint8 = ''int8''"
| "type_name Kfloat64 = ''float64''"
| "type_name Kfloat32 = ''float32''"
| "type_name (Kother name) = name"

section \<open>Vector\<close>

text \<open>
  Modelled from the spec: \<^verbatim>\<open>structs.Vector[T]\<close> is not among the sources. By 4.3 and 6 a
  vector is written as its element count (eight bytes) followed by its elements in order,
  its size is the size of that, it is read back the same way, and two vectors are equal
  when they have the same length and equal elements (by value for the numeric kinds, by
  the element's \<^verbatim>\<open>Equal\<close> otherwise).
\<close>

definition Vector_BinarySize :: "'a elem_type \<Rightarrow> 'a list \<Rightarrow> nat" where
  "Vector_BinarySize T v = 8 + sum_list (map (size_of T) v)"

fun Vector_WriteTo_elems ::
  "'a elem_type \<Rightarrow> 'a list \<Rightarrow> nat \<Rightarrow> io_writer \<Rightarrow> nat \<times> error option \<times> io_writer" where
  "Vector_WriteTo_elems T [] n w = (n, None, w)"
| "Vector_WriteTo_elems T (x # xs) n w =
     (case put T x of
        Inl err \<Rightarrow> (n, Some err, w)
      | Inr bs \<Rightarrow>
          (case Write bs w of
             (inc, Some err, w') \<Rightarrow> (n + inc, Some err, w')
           | (inc, None, w') \<Rightarrow> Vector_WriteTo_elems T xs (n + inc) w'))"

definition Vector_WriteTo ::
  "'a elem_type \<Rightarrow> 'a list \<Rightarrow> io_writer \<Rightarrow> nat \<times> error option \<times> io_writer" where
  "Vector_WriteTo T v w =
     (case WriteAsUint64 (length v) w of
        (inc, Some err, w') \<Rightarrow> (inc, Some err, w')
      | (inc, None, w') \<Rightarrow> Vector_WriteTo_elems T v inc w')"

fun Vector_ReadFrom_elems ::
  "'a elem_type \<Rightarrow> nat \<Rightarrow> nat \<Rightarrow> io_reader \<Rightarrow> nat \<times> (error + 'a list) \<times> io_reader" where
  "Vector_ReadFrom_elems T 0 n r = (n, Inr [], r)"
| "Vector_ReadFrom_elems T (Suc k) n r =
     (case get T (remaining r) of
        Inl err \<Rightarrow> (n, Inl err, r)
      | Inr (x, rest) \<Rightarrow>
          (case Vector_ReadFrom_elems T k (n + (length (remaining r) - length rest)) (seek rest r) of
             (n', Inl err, r') \<Rightarrow> (n', Inl err, r')
           | (n', Inr xs, r') \<Rightarrow> (n', Inr (x # xs), r')))"

definition Vector_ReadFrom ::
  "'a elem_type \<Rightarrow> io_reader \<Rightarrow> nat \<times> (error + 'a list) \<times> io_reader" where
  "Vector_ReadFrom T r =
     (case ReadAsUint64 r of
        (n, Inl err, r') \<Rightarrow> (n, Inl err, r')
      | (n, Inr sz, r') \<Rightarrow> Vector_ReadFrom_elems T sz n r')"

definition Vector_Equal :: "'a elem_type \<Rightarrow> 'a list \<Rightarrow> 'a list \<Rightarrow> panic + bool" where
  "Vector_Equal T v other =
     (if is_primitive (kind T) then Inr (v = other)
      else (case Equatable T of
              None \<Rightarrow> Inl (NotComply (type_name (kind T)) ''Equatable'')
            | Some eq \<Rightarrow> Inr (list_all2 eq v other)))"

section \<open>Matrix\<close>

text \<open>
  \<^verbatim>\<open>type Matrix[T any] [][]T\<close>: a list of rows. The functions of this section are those
  of the source file, in its order.
\<close>

type_synonym 'a Matrix = "'a list list"

subsection \<open>CopyNew\<close>

text \<open>
  \<^verbatim>\<open>CopyNew\<close> allocates, so it runs on a store. A slice is the address of its backing
  array: \<open>mats\<close> holds the backing arrays of matrices (each entry the slice of a row, \<open>None\<close>
  for the nil slice of a fresh \<^verbatim>\<open>make([][]T, n)\<close>), \<open>rows\<close> those of rows, and \<open>brk\<close> is the
  next address that \<^verbatim>\<open>make\<close> hands out: the addresses below it are in use.
\<close>

type_synonym addr = nat

record 'a heap =
  mats :: "addr \<Rightarrow> addr option list"
  rows :: "addr \<Rightarrow> 'a list"
  brk :: addr

definition make_matrix :: "nat \<Rightarrow> 'a heap \<Rightarrow> addr \<times> 'a heap" where
  "make_matrix n h = (brk h, h\<lparr>mats := (mats h)(brk h := replicate n None), brk := Suc (brk h)\<rparr>)"

definition make_row :: "'a list \<Rightarrow> 'a heap \<Rightarrow> addr \<times> 'a heap" where
  "make_row xs h = (brk h, h\<lparr>rows := (rows h)(brk h := xs), brk := Suc (brk h)\<rparr>)"

text \<open>\<open>m[i]\<close> as a value: the elements of row \<open>i\<close> of the matrix at \<open>m\<close>.\<close>

definition row_slice :: "'a heap \<Rightarrow> addr option \<Rightarrow> 'a list" where
  "row_slice h s = (case s of None \<Rightarrow> [] | Some a \<Rightarrow> rows h a)"

definition row_slices :: "'a heap \<Rightarrow> addr \<Rightarrow> addr option list" where
  "row_slices h m = mats h m"

text \<open>The matrix at \<open>m\<close> as a value.\<close>

definition load :: "'a heap \<Rightarrow> addr \<Rightarrow> 'a Matrix" where
  "load h m = map (row_slice h) (row_slices h m)"

text \<open>The assignments \<open>m[i] = s\<close> and \<open>m[i][j] = x\<close>; out of range they panic.\<close>

definition set_row :: "addr \<Rightarrow> nat \<Rightarrow> addr option \<Rightarrow> 'a heap \<Rightarrow> panic + 'a heap" where
  "set_row m i s h =
     (if i < length (row_slices h m)
      then Inr (h\<lparr>mats := (mats h)(m := (row_slices h m)[i := s])\<rparr>)
      else Inl (IndexOutOfRange i (length (row_slices h m))))"

definition set_elem :: "addr \<Rightarrow> nat \<Rightarrow> nat \<Rightarrow> 'a \<Rightarrow> 'a heap \<Rightarrow> panic + 'a heap" where
  "set_elem m i j x h =
     (if i < length (row_slices h m)
      then (case row_slices h m ! i of
              None \<Rightarrow> Inl (IndexOutOfRange j 0)
            | Some a \<Rightarrow>
                if j < length (row_slice h (Some a))
                then Inr (h\<lparr>rows := (rows h)(a := (row_slice h (Some a))[j := x])\<rparr>)
                else Inl (IndexOutOfRange j (length (row_slice h (Some a)))))
      else Inl (IndexOutOfRange i (length (row_slices h m))))"

text \<open>
  The loop \<^verbatim>\<open>for i := range m\<close> of \<^verbatim>\<open>CopyNew\<close>, over the row slices of \<open>m\<close> from index \<open>i\<close>
  on: \<^verbatim>\<open>mcpy[i] = make([]T, len(m[i]))\<close>, then the elements are copied (\<open>cp\<close> is the
  identity for \<^verbatim>\<open>copy\<close>, the element's \<^verbatim>\<open>CopyNew\<close> otherwise).
\<close>

fun CopyNew_rows :: "('a \<Rightarrow> 'a) \<Rightarrow> addr option list \<Rightarrow> addr \<Rightarrow> nat \<Rightarrow> 'a heap \<Rightarrow> 'a heap" where
  "CopyNew_rows cp [] mcpy i h = h"
| "CopyNew_rows cp (s # ss) mcpy i h =
     (case make_row (map cp (row_slice h s)) h of
        (a, h') \<Rightarrow>
          CopyNew_rows cp ss mcpy (Suc i)
            (h'\<lparr>mats := (mats h')(mcpy := (row_slices h' mcpy)[i := Some a])\<rparr>))"

definition Matrix_CopyNew :: "'a elem_type \<Rightarrow> addr \<Rightarrow> 'a heap \<Rightarrow> panic + addr \<times> 'a heap" where
  "Matrix_CopyNew T m h =
     (if is_primitive (kind T) then
        (case make_matrix (length (row_slices h m)) h of
           (mcpy, h') \<Rightarrow> Inr (mcpy, CopyNew_rows (\<lambda>x. x) (row_slices h m) mcpy 0 h'))
      else
        (case CopyNewer T of
           None \<Rightarrow> Inl (NotComply (type_name (kind T)) ''CopyNewer'')
         | Some cp \<Rightarrow>
             (case make_matrix (length (row_slices h m)) h of
                (mcpy, h') \<Rightarrow> Inr (mcpy, CopyNew_rows cp (row_slices h m) mcpy 0 h'))))"

subsection \<open>BinarySize\<close>

definition Matrix_BinarySize :: "'a elem_type \<Rightarrow> 'a Matrix \<Rightarrow> nat" where
  "Matrix_BinarySize T m = fold (\<lambda>v sz. sz + Vector_BinarySize T v) m 8"

subsection \<open>WriteTo\<close>

text \<open>
  The loop over the rows and the final \<^verbatim>\<open>return n, w.Flush()\<close>. A failing row returns
  at once, with its error wrapped under the name of the vector's method.
\<close>

fun WriteTo_rows ::
  "'a elem_type \<Rightarrow> 'a Matrix \<Rightarrow> nat \<Rightarrow> io_writer \<Rightarrow> nat \<times> error option \<times> io_writer" where
  "WriteTo_rows T [] n w = (case Flush w of (err, w') \<Rightarrow> (n, err, w'))"
| "WriteTo_rows T (v # vs) n w =
     (case Vector_WriteTo T v w of
        (inc, Some err, w') \<Rightarrow>
          (n + inc, Some (Errorf (''structs.Vector['' @ type_name (kind T) @ ''].WriteTo'') err), w')
      | (inc, None, w') \<Rightarrow> WriteTo_rows T vs (n + inc) w')"

function Matrix_WriteTo ::
  "'a elem_type \<Rightarrow> 'a Matrix \<Rightarrow> io_writer \<Rightarrow> nat \<times> error option \<times> io_writer" where
  "Matrix_WriteTo T m w =
     (if is_buffer_Writer w then
        (case WriteAsUint64 (length m) w of
           (inc, Some err, w') \<Rightarrow> (inc, Some (Errorf ''buffer.WriteAsUint64[int]'' err), w')
         | (inc, None, w') \<Rightarrow> WriteTo_rows T m inc w')
      else Matrix_WriteTo T m (bufio_NewWriter w))"
  by pat_completeness auto
termination
  by (relation "measure (\<lambda>(T, m, w). if is_buffer_Writer w then 0 else 1)")
    (auto simp: bufio_NewWriter_def)

declare Matrix_WriteTo.simps [simp del]

subsection \<open>ReadFrom\<close>

text \<open>
  The receiver is resized to the count read and every row is then read in place, so a
  read that succeeds leaves nothing of the receiver's old rows: the model returns the
  matrix read. Counts are natural numbers (a Go slice has fewer than \<open>2 ^ 63\<close> elements).
\<close>

fun ReadFrom_rows ::
  "'a elem_type \<Rightarrow> nat \<Rightarrow> nat \<Rightarrow> io_reader \<Rightarrow> nat \<times> (error + 'a Matrix) \<times> io_reader" where
  "ReadFrom_rows T 0 n r = (n, Inr [], r)"
| "ReadFrom_rows T (Suc k) n r =
     (case Vector_ReadFrom T r of
        (inc, Inl err, r') \<Rightarrow>
          (n + inc, Inl (Errorf (''structs.Vector['' @ type_name (kind T) @ ''].ReadFrom'') err), r')
      | (inc, Inr v, r') \<Rightarrow>
          (case ReadFrom_rows T k (n + inc) r' of
             (n', Inl err, r'') \<Rightarrow> (n', Inl err, r'')
           | (n', Inr vs, r'') \<Rightarrow> (n', Inr (v # vs), r'')))"

function Matrix_ReadFrom ::
  "'a elem_type \<Rightarrow> io_reader \<Rightarrow> nat \<times> (error + 'a Matrix) \<times> io_reader" where
  "Matrix_ReadFrom T r =
     (if is_buffer_Reader r then
        (case ReadAsUint64 r of
           (n, Inl err, r') \<Rightarrow> (n, Inl (Errorf ''buffer.ReadAsUint64[int]'' err), r')
         | (n, Inr sz, r') \<Rightarrow> ReadFrom_rows T sz n r')
      else Matrix_ReadFrom T (bufio_NewReader r))"
  by pat_completeness auto
termination
  by (relation "measure (\<lambda>(T, r). if is_buffer_Reader r then 0 else 1)")
    (auto simp: bufio_NewReader_def)

declare Matrix_ReadFrom.simps [simp del]

subsection \<open>MarshalBinary, UnmarshalBinary\<close>

definition Matrix_MarshalBinary :: "'a elem_type \<Rightarrow> 'a Matrix \<Rightarrow> byte list \<times> error option" where
  "Matrix_MarshalBinary T m =
     (case Matrix_WriteTo T m (NewBufferSize (Matrix_BinarySize T m)) of
        (n, err, buf) \<Rightarrow> (Bytes buf, err))"

definition Matrix_UnmarshalBinary :: "'a elem_type \<Rightarrow> byte list \<Rightarrow> error + 'a Matrix" where
  "Matrix_UnmarshalBinary T p = (case Matrix_ReadFrom T (NewBuffer p) of (n, res, r) \<Rightarrow> res)"

subsection \<open>Equal\<close>

text \<open>
  The loop \<^verbatim>\<open>for i := range m { isEqual = isEqual && Vector[T](m[i]).Equal(Vector[T](other[i])) }\<close>
  over the rows of \<open>m\<close> from index \<open>i\<close> on. \<^verbatim>\<open>&&\<close> evaluates \<^verbatim>\<open>other[i]\<close> only while
  \<open>isEqual\<close> holds, and \<^verbatim>\<open>other[i]\<close> panics when \<open>other\<close> has no row \<open>i\<close>.
\<close>

fun Equal_rows :: "'a elem_type \<Rightarrow> 'a Matrix \<Rightarrow> 'a Matrix \<Rightarrow> nat \<Rightarrow> bool \<Rightarrow> panic + bool" where
  "Equal_rows T [] other i isEqual = Inr isEqual"
| "Equal_rows T (v # vs) other i isEqual =
     (if isEqual then
        (if i < length other then
           (case Vector_Equal T v (other ! i) of
              Inl p \<Rightarrow> Inl p
            | Inr b \<Rightarrow> Equal_rows T vs other (Suc i) b)
         else Inl (IndexOutOfRange i (length other)))
      else Equal_rows T vs other (Suc i) False)"

definition Matrix_Equal :: "'a elem_type \<Rightarrow> 'a Matrix \<Rightarrow> 'a Matrix \<Rightarrow> panic + bool" where
  "Matrix_Equal T m other =
     (if is_primitive (kind T) then Equal_rows T m other 0 True
      else (case Equatable T of
              None \<Rightarrow> Inl (NotComply (type_name (kind T)) ''Equatable'')
            | Some eq \<Rightarrow> Equal_rows T m other 0 True))"

section \<open>SecretKey\<close>

text \<open>
  \<^verbatim>\<open>ringqp.Poly\<close> belongs to the ring engine, which is not among the sources: its methods
  are parameters, collected in a record. In-place methods return the receiver afterwards.
  \<open>poly_Read p data\<close> encodes \<open>p\<close> onto the slice \<open>data\<close> and returns the count, the error
  and the slice afterwards; \<open>poly_Write p data\<close> decodes \<open>data\<close> into the receiver \<open>p\<close>.
\<close>

record 'p ring_engine =
  poly_CopyNew :: "'p \<Rightarrow> 'p"
  poly_BinarySize :: "'p \<Rightarrow> nat"
  poly_WriteTo :: "'p \<Rightarrow> io_writer \<Rightarrow> nat \<times> error option \<times> io_writer"
  poly_ReadFrom :: "'p \<Rightarrow> io_reader \<Rightarrow> nat \<times> error option \<times> 'p \<times> io_reader"
  poly_Read :: "'p \<Rightarrow> byte list \<Rightarrow> nat \<times> error option \<times> byte list"
  poly_Write :: "'p \<Rightarrow> byte list \<Rightarrow> nat \<times> error option \<times> 'p"

record 'p SecretKey =
  sk_Value :: 'p

text \<open>\<^verbatim>\<open>cmp.Equal(sk.Value, other.Value)\<close>: equality of the two values.\<close>

definition SecretKey_Equal :: "'p SecretKey \<Rightarrow> 'p SecretKey \<Rightarrow> bool" where
  "SecretKey_Equal sk other = (sk_Value sk = sk_Value other)"

text \<open>
  \<^verbatim>\<open>CopyNew\<close> has a pointer receiver and returns a pointer to a new struct, so it runs on a
  store of secret keys: \<open>keys\<close> holds the struct at each address and \<open>next_key\<close> is the next
  address that an allocation hands out. A pointer is \<open>None\<close> (\<^verbatim>\<open>nil\<close>) or an address.
\<close>

record 'p key_store =
  keys :: "addr \<Rightarrow> 'p SecretKey"
  next_key :: addr

definition SecretKey_CopyNew ::
  "'p ring_engine \<Rightarrow> addr option \<Rightarrow> 'p key_store \<Rightarrow> addr option \<times> 'p key_store" where
  "SecretKey_CopyNew E sk h =
     (case sk of
        None \<Rightarrow> (None, h)
      | Some a \<Rightarrow>
          (Some (next_key h),
           h\<lparr>keys := (keys h)(next_key h := \<lparr>sk_Value = poly_CopyNew E (sk_Value (keys h a))\<rparr>),
             next_key := Suc (next_key h)\<rparr>))"

definition SecretKey_BinarySize :: "'p ring_engine \<Rightarrow> 'p SecretKey \<Rightarrow> nat" where
  "SecretKey_BinarySize E sk = poly_BinarySize E (sk_Value sk)"

definition SecretKey_Read ::
  "'p ring_engine \<Rightarrow> 'p SecretKey \<Rightarrow> byte list \<Rightarrow> nat \<times> error option \<times> byte list" where
  "SecretKey_Read E sk data = poly_Read E (sk_Value sk) data"

text \<open>\<^verbatim>\<open>make([]byte, sk.BinarySize())\<close> is a slice of zero bytes; on an error the result is \<^verbatim>\<open>nil\<close>.\<close>

definition SecretKey_MarshalBinary :: "'p ring_engine \<Rightarrow> 'p SecretKey \<Rightarrow> byte list \<times> error option" where
  "SecretKey_MarshalBinary E sk =
     (case SecretKey_Read E sk (replicate (SecretKey_BinarySize E sk) 0) of
        (ptr, Some err, data) \<Rightarrow> ([], Some err)
      | (ptr, None, data) \<Rightarrow> (data, None))"

definition SecretKey_WriteTo ::
  "'p ring_engine \<Rightarrow> 'p SecretKey \<Rightarrow> io_writer \<Rightarrow> nat \<times> error option \<times> io_writer" where
  "SecretKey_WriteTo E sk w = poly_WriteTo E (sk_Value sk) w"

definition SecretKey_Write ::
  "'p ring_engine \<Rightarrow> 'p SecretKey \<Rightarrow> byte list \<Rightarrow> nat \<times> error option \<times> 'p SecretKey" where
  "SecretKey_Write E sk data =
     (case poly_Write E (sk_Value sk) data of (ptr, err, p) \<Rightarrow> (ptr, err, sk\<lparr>sk_Value := p\<rparr>))"

definition SecretKey_UnmarshalBinary ::
  "'p ring_engine \<Rightarrow> 'p SecretKey \<Rightarrow> byte list \<Rightarrow> error option \<times> 'p SecretKey" where
  "SecretKey_UnmarshalBinary E sk data =
     (case SecretKey_Write E sk data of (ptr, err, sk') \<Rightarrow> (err, sk'))"

definition SecretKey_ReadFrom ::
  "'p ring_engine \<Rightarrow> 'p SecretKey \<Rightarrow> io_reader \<Rightarrow> nat \<times> error option \<times> 'p SecretKey \<times> io_reader" where
  "SecretKey_ReadFrom E sk r =
     (case poly_ReadFrom E (sk_Value sk) r of (n, err, p, r') \<Rightarrow> (n, err, sk\<lparr>sk_Value := p\<rparr>, r'))"

section \<open>GadgetCiphertext\<close>

text \<open>
  Modelled from the spec: \<^verbatim>\<open>rlwe.GadgetCiphertext\<close> is not among the sources. By 3, 4.4
  and 6 it is a matrix of ring-element pairs whose rows are the digits, and its size and
  stream codec are those of the matrix, with no framing of its own.
\<close>

record 'e GadgetCiphertext =
  gct_Value :: "'e Matrix"

definition GadgetCiphertext_BinarySize :: "'e elem_type \<Rightarrow> 'e GadgetCiphertext \<Rightarrow> nat" where
  "GadgetCiphertext_BinarySize T g = Matrix_BinarySize T (gct_Value g)"

definition GadgetCiphertext_WriteTo ::
  "'e elem_type \<Rightarrow> 'e GadgetCiphertext \<Rightarrow> io_writer \<Rightarrow> nat \<times> error option \<times> io_writer" where
  "GadgetCiphertext_WriteTo T g w = Matrix_WriteTo T (gct_Value g) w"

definition GadgetCiphertext_ReadFrom ::
  "'e elem_type \<Rightarrow> io_reader \<Rightarrow> nat \<times> (error + 'e GadgetCiphertext) \<times> io_reader" where
  "GadgetCiphertext_ReadFrom T r =
     (case Matrix_ReadFrom T r of
        (n, Inl err, r') \<Rightarrow> (n, Inl err, r')
      | (n, Inr m, r') \<Rightarrow> (n, Inr \<lparr>gct_Value = m\<rparr>, r'))"

text \<open>
  The allocator \<^verbatim>\<open>rlwe.NewGadgetCiphertext(params, degree, levelQ, levelP, base)\<close> and the
  level queries of a gadget ciphertext are parameters.
\<close>

record ('prm, 'e) rlwe =
  NewGadgetCiphertext :: "'prm \<Rightarrow> int \<Rightarrow> int \<Rightarrow> int \<Rightarrow> int \<Rightarrow> 'e GadgetCiphertext"
  gct_LevelQ :: "'e GadgetCiphertext \<Rightarrow> int"
  gct_LevelP :: "'e GadgetCiphertext \<Rightarrow> int"

text \<open>The digits of a gadget ciphertext are the rows of its matrix (section 3).\<close>

definition digits :: "'e GadgetCiphertext \<Rightarrow> nat list" where
  "digits g = map length (gct_Value g)"

section \<open>RGSW Ciphertext\<close>

text \<open>\<^verbatim>\<open>Value [2]rlwe.GadgetCiphertext\<close>: the two halves, as a pair.\<close>

record 'e Ciphertext =
  ct_Value :: "'e GadgetCiphertext \<times> 'e GadgetCiphertext"

definition Ciphertext_LevelQ :: "('prm, 'e) rlwe \<Rightarrow> 'e Ciphertext \<Rightarrow> int" where
  "Ciphertext_LevelQ R ct = gct_LevelQ R (fst (ct_Value ct))"

definition Ciphertext_LevelP :: "('prm, 'e) rlwe \<Rightarrow> 'e Ciphertext \<Rightarrow> int" where
  "Ciphertext_LevelP R ct = gct_LevelP R (fst (ct_Value ct))"

definition NewCiphertext :: "('prm, 'e) rlwe \<Rightarrow> 'prm \<Rightarrow> int \<Rightarrow> int \<Rightarrow> int \<Rightarrow> 'e Ciphertext" where
  "NewCiphertext R params levelQ levelP BaseTwoDecomposition =
     \<lparr>ct_Value =
        (NewGadgetCiphertext R params 1 levelQ levelP BaseTwoDecomposition,
         NewGadgetCiphertext R params 1 levelQ levelP BaseTwoDecomposition)\<rparr>"

definition Ciphertext_BinarySize :: "'e elem_type \<Rightarrow> 'e Ciphertext \<Rightarrow> nat" where
  "Ciphertext_BinarySize T ct =
     GadgetCiphertext_BinarySize T (fst (ct_Value ct)) + GadgetCiphertext_BinarySize T (snd (ct_Value ct))"

function Ciphertext_WriteTo ::
  "'e elem_type \<Rightarrow> 'e Ciphertext \<Rightarrow> io_writer \<Rightarrow> nat \<times> error option \<times> io_writer" where
  "Ciphertext_WriteTo T ct w =
     (if is_buffer_Writer w then
        (case GadgetCiphertext_WriteTo T (fst (ct_Value ct)) w of
           (n, Some err, w') \<Rightarrow> (n, Some err, w')
         | (n, None, w') \<Rightarrow>
             (case GadgetCiphertext_WriteTo T (snd (ct_Value ct)) w' of
                (inc, err, w'') \<Rightarrow> (n + inc, err, w'')))
      else Ciphertext_WriteTo T ct (bufio_NewWriter w))"
  by pat_completeness auto
termination
  by (relation "measure (\<lambda>(T, ct, w). if is_buffer_Writer w then 0 else 1)")
    (auto simp: bufio_NewWriter_def)

declare Ciphertext_WriteTo.simps [simp del]

function Ciphertext_ReadFrom ::
  "'e elem_type \<Rightarrow> io_reader \<Rightarrow> nat \<times> (error + 'e Ciphertext) \<times> io_reader" where
  "Ciphertext_ReadFrom T r =
     (if is_buffer_Reader r then
        (case GadgetCiphertext_ReadFrom T r of
           (n, Inl err, r') \<Rightarrow> (n, Inl err, r')
         | (n, Inr g0, r') \<Rightarrow>
             (case GadgetCiphertext_ReadFrom T r' of
                (inc, Inl err, r'') \<Rightarrow> (n + inc, Inl err, r'')
              | (inc, Inr g1, r'') \<Rightarrow> (n + inc, Inr \<lparr>ct_Value = (g0, g1)\<rparr>, r'')))
      else Ciphertext_ReadFrom T (bufio_NewReader r))"
  by pat_completeness auto
termination
  by (relation "measure (\<lambda>(T, r). if is_buffer_Reader r then 0 else 1)")
    (auto simp: bufio_NewReader_def)

declare Ciphertext_ReadFrom.simps [simp del]

definition Ciphertext_MarshalBinary :: "'e elem_type \<Rightarrow> 'e Ciphertext \<Rightarrow> byte list \<times> error option" where
  "Ciphertext_MarshalBinary T ct =
     (case Ciphertext_WriteTo T ct (NewBufferSize (Ciphertext_BinarySize T ct)) of
        (n, err, buf) \<Rightarrow> (Bytes buf, err))"

definition Ciphertext_UnmarshalBinary :: "'e elem_type \<Rightarrow> byte list \<Rightarrow> error + 'e Ciphertext" where
  "Ciphertext_UnmarshalBinary T p = (case Ciphertext_ReadFrom T (NewBuffer p) of (n, res, r) \<Rightarrow> res)"

section \<open>Wire format and valid values\<close>

text \<open>
  The wire format of section 6 of the spec, as functions from a value to its bytes:
  \<^verbatim>\<open>[count: u64][element_0]...\<close> for a vector and
  \<^verbatim>\<open>[rowCount: u64][Vector row_0]...\<close> for a matrix. They are what the codec of the
  source is compared with. \<open>codec_ok T x\<close> is the contract of 4.1 for the element \<open>x\<close>: its
  write succeeds with exactly \<open>size_of T x\<close> bytes, and its read gives \<open>x\<close> back from them.
  A valid vector or matrix has a length that a Go slice can have and elements that keep
  the contract. \<open>supports_Equal T\<close> says that \<open>T\<close> is a numeric kind or implements
  \<^verbatim>\<open>Equatable\<close>, and \<open>equatable_ok T x\<close> that its equality holds between \<open>x\<close> and itself.
\<close>

definition elem_bytes :: "'a elem_type \<Rightarrow> 'a \<Rightarrow> byte list" where
  "elem_bytes T x = (case put T x of Inl err \<Rightarrow> [] | Inr bs \<Rightarrow> bs)"

definition Vector_bytes :: "'a elem_type \<Rightarrow> 'a list \<Rightarrow> byte list" where
  "Vector_bytes T v = put_le 8 (length v) @ concat (map (elem_bytes T) v)"

definition Matrix_bytes :: "'a elem_type \<Rightarrow> 'a Matrix \<Rightarrow> byte list" where
  "Matrix_bytes T m = put_le 8 (length m) @ concat (map (Vector_bytes T) m)"

definition writable :: "'a elem_type \<Rightarrow> 'a \<Rightarrow> bool" where
  "writable T x = (case put T x of Inl err \<Rightarrow> False | Inr bs \<Rightarrow> True)"

definition codec_ok :: "'a elem_type \<Rightarrow> 'a \<Rightarrow> bool" where
  "codec_ok T x =
     (writable T x \<and> length (elem_bytes T x) = size_of T x \<and>
      (\<forall>rest. get T (elem_bytes T x @ rest) = Inr (x, rest)))"

definition valid_Vector :: "'a elem_type \<Rightarrow> 'a list \<Rightarrow> bool" where
  "valid_Vector T v = (length v < 2 ^ 63 \<and> (\<forall>x \<in> set v. codec_ok T x))"

definition valid_Matrix :: "'a elem_type \<Rightarrow> 'a Matrix \<Rightarrow> bool" where
  "valid_Matrix T m = (length m < 2 ^ 63 \<and> (\<forall>v \<in> set m. valid_Vector T v))"

definition supports_Equal :: "'a elem_type \<Rightarrow> bool" where
  "supports_Equal T = (is_primitive (kind T) \<or> Equatable T \<noteq> None)"

definition equatable_ok :: "'a elem_type \<Rightarrow> 'a \<Rightarrow> bool" where
  "equatable_ok T x =
     (is_primitive (kind T) \<or> (case Equatable T of None \<Rightarrow> False | Some eq \<Rightarrow> eq x x))"

section \<open>Element types and values used in the examples\<close>

text \<open>
  \<^verbatim>\<open>uint64\<close> elements with their eight-byte encoding; a structured type with all the
  capabilities, whose \<^verbatim>\<open>WriteTo\<close> fails on a value that does not fit eight bytes; a struct
  type with no capability at all.
\<close>

definition T_uint64 :: "64 word elem_type" where
  "T_uint64 = \<lparr>kind = Kuint64, CopyNewer = None, Equatable = None, size_of = (\<lambda>x. 8),
     put = (\<lambda>x. Inr (put_le 8 (unat x))),
     get = (\<lambda>bs. if length bs < 8 then Inl ErrUnexpectedEOF
                 else Inr (of_nat (get_le (take 8 bs)), drop 8 bs))\<rparr>"

definition T_big :: "nat elem_type" where
  "T_big = \<lparr>kind = Kother ''big.Nat'', CopyNewer = Some (\<lambda>x. x), Equatable = Some (\<lambda>x y. x = y),
     size_of = (\<lambda>x. 8),
     put = (\<lambda>x. if x < 2 ^ 64 then Inr (put_le 8 x) else Inl ErrElement),
     get = (\<lambda>bs. if length bs < 8 then Inl ErrUnexpectedEOF
                 else Inr (get_le (take 8 bs), drop 8 bs))\<rparr>"

definition T_plain :: "unit elem_type" where
  "T_plain = \<lparr>kind = Kother ''struct {}'', CopyNewer = None, Equatable = None,
     size_of = (\<lambda>x. 0), put = (\<lambda>x. Inr []), get = (\<lambda>bs. Inr ((), bs))\<rparr>"

definition empty_heap :: "'a heap" where
  "empty_heap = \<lparr>mats = (\<lambda>a. []), rows = (\<lambda>a. []), brk = 1\<rparr>"

definition channel :: "nat \<Rightarrow> io_writer" where
  "channel q = Sink \<lparr>accepted = [], quota = q\<rparr>"

section \<open>Contracts and encodings of the composite types\<close>

text \<open>
  \<open>engine_round_trip E p\<close> is the stream-codec contract of 4.1 for the ring element \<open>p\<close>:
  whatever writer the engine's \<^verbatim>\<open>WriteTo\<close> succeeds on, its \<^verbatim>\<open>ReadFrom\<close> on the bytes
  written gives \<open>p\<close> back, whatever the receiver held. \<open>Ciphertext_bytes\<close> is the wire format
  of an RGSW ciphertext (section 6): the two halves one after the other. \<open>E_word\<close> is a
  ring engine whose elements are single 64-bit words, and \<open>ct_example\<close> a ciphertext over
  \<^verbatim>\<open>uint64\<close> entries, for the examples.
\<close>

definition engine_round_trip :: "'p ring_engine \<Rightarrow> 'p \<Rightarrow> bool" where
  "engine_round_trip E p =
     (\<forall>w n w' recv r.
        poly_WriteTo E p w = (n, None, w') \<and> remaining r = drop (length (stream w)) (stream w')
        \<longrightarrow> (\<exists>r'. poly_ReadFrom E recv r = (n, None, p, r')))"

definition Ciphertext_bytes :: "'e elem_type \<Rightarrow> 'e Ciphertext \<Rightarrow> byte list" where
  "Ciphertext_bytes T ct =
     Matrix_bytes T (gct_Value (fst (ct_Value ct))) @ Matrix_bytes T (gct_Value (snd (ct_Value ct)))"

definition valid_Ciphertext :: "'e elem_type \<Rightarrow> 'e Ciphertext \<Rightarrow> bool" where
  "valid_Ciphertext T ct =
     (valid_Matrix T (gct_Value (fst (ct_Value ct))) \<and> valid_Matrix T (gct_Value (snd (ct_Value ct))))"

definition E_word :: "64 word ring_engine" where
  "E_word = \<lparr>poly_CopyNew = (\<lambda>p. p), poly_BinarySize = (\<lambda>p. 8),
     poly_WriteTo = (\<lambda>p w. Write (put_le 8 (unat p)) w),
     poly_ReadFrom = (\<lambda>recv r.
        if length (remaining r) < 8 then (0, Some ErrUnexpectedEOF, recv, r)
        else (8, None, of_nat (get_le (take 8 (remaining r))), seek (drop 8 (remaining r)) r)),
     poly_Read = (\<lambda>p data.
        if length data < 8 then (0, Some ErrShortWrite, data)
        else (8, None, put_le 8 (unat p) @ drop 8 data)),
     poly_Write = (\<lambda>recv data.
        if length data < 8 then (0, Some ErrUnexpectedEOF, recv)
        else (8, None, of_nat (get_le (take 8 data))))\<rparr>"

definition ct_example :: "64 word Ciphertext" where
  "ct_example = \<lparr>ct_Value = (\<lparr>gct_Value = [[1], [2, 3]]\<rparr>, \<lparr>gct_Value = [[4]]\<rparr>)\<rparr>"

text \<open>
  The ring engine has two codecs: on streams (\<^verbatim>\<open>WriteTo\<close>, \<^verbatim>\<open>ReadFrom\<close>) and on byte
  slices (\<^verbatim>\<open>Read\<close>, \<^verbatim>\<open>Write\<close>), and \<^verbatim>\<open>SecretKey.MarshalBinary\<close> and \<^verbatim>\<open>UnmarshalBinary\<close>
  use the second. \<open>engine_slices_agree E p\<close> says that \<^verbatim>\<open>Read\<close> fills a slice of
  \<^verbatim>\<open>BinarySize\<close> bytes with the bytes that \<^verbatim>\<open>WriteTo\<close> writes, and
  \<open>engine_decoders_agree E\<close> that \<^verbatim>\<open>Write\<close> decodes a slice as \<^verbatim>\<open>ReadFrom\<close> decodes a stream
  of the same bytes.
\<close>

definition engine_slices_agree :: "'p ring_engine \<Rightarrow> 'p \<Rightarrow> bool" where
  "engine_slices_agree E p =
     (\<forall>data. length data = poly_BinarySize E p \<longrightarrow>
        (\<exists>enc. poly_Read E p data = (length enc, None, enc) \<and> length enc = poly_BinarySize E p
           \<and> (\<forall>w n w'. poly_WriteTo E p w = (n, None, w') \<longrightarrow>
                 drop (length (stream w)) (stream w') = enc)))"

definition engine_decoders_agree :: "'p ring_engine \<Rightarrow> bool" where
  "engine_decoders_agree E =
     (\<forall>recv r n err p r'. poly_ReadFrom E recv r = (n, err, p, r') \<longrightarrow>
        (\<exists>ptr. poly_Write E recv (remaining r) = (ptr, err, p)))"

text \<open>
  \<open>short_read_ok T x\<close> is the short-read part of the codec contract (section 7): reading
  an element from a proper prefix of its encoding fails.
\<close>

definition short_read_ok :: "'a elem_type \<Rightarrow> 'a \<Rightarrow> bool" where
  "short_read_ok T x =
     (\<forall>k < length (elem_bytes T x). \<exists>err. get T (take k (elem_bytes T x)) = Inl err)"

definition valid_for_short_reads :: "'a elem_type \<Rightarrow> 'a Matrix \<Rightarrow> bool" where
  "valid_for_short_reads T m = (valid_Matrix T m \<and> (\<forall>v \<in> set m. \<forall>x \<in> set v. short_read_ok T x))"

section \<open>Mutation after a copy\<close>

text \<open>
  \<open>set_elems m ws\<close> runs the assignments \<open>m[i][j] = x\<close> of the list \<open>ws\<close> in order, and
  \<open>set_Value a p\<close> is the assignment \<open>sk.Value = p\<close> through the pointer \<open>a\<close>. A matrix is in
  use in a store when its address and the addresses of its rows have been handed out.
  \<open>copier T\<close> is what \<^verbatim>\<open>CopyNew\<close> applies to an element: nothing for a numeric kind (\<^verbatim>\<open>copy\<close>),
  the element's \<^verbatim>\<open>CopyNew\<close> otherwise. \<open>copy_ok T x\<close> is the contract of \<^verbatim>\<open>CopyNewer\<close> (4.1) for
  the element \<open>x\<close>: its copy is equal to it; \<open>engine_copy_ok E p\<close> is the same for a ring
  element. \<open>h_example\<close> holds the \<^verbatim>\<open>uint64\<close> matrix \<open>[[1], [2, 3]]\<close> at address 0, and
  \<open>k_example\<close> a secret key over \<open>E_word\<close>.
\<close>

fun set_elems :: "addr \<Rightarrow> (nat \<times> nat \<times> 'a) list \<Rightarrow> 'a heap \<Rightarrow> panic + 'a heap" where
  "set_elems m [] h = Inr h"
| "set_elems m ((i, j, x) # ws) h =
     (case set_elem m i j x h of Inl p \<Rightarrow> Inl p | Inr h' \<Rightarrow> set_elems m ws h')"

definition in_use :: "'a heap \<Rightarrow> addr \<Rightarrow> bool" where
  "in_use h m = (m < brk h \<and> (\<forall>a. Some a \<in> set (row_slices h m) \<longrightarrow> a < brk h))"

definition copier :: "'a elem_type \<Rightarrow> 'a \<Rightarrow> 'a" where
  "copier T = (if is_primitive (kind T) then (\<lambda>x. x)
               else (case CopyNewer T of None \<Rightarrow> (\<lambda>x. x) | Some cp \<Rightarrow> cp))"

definition copy_ok :: "'a elem_type \<Rightarrow> 'a \<Rightarrow> bool" where
  "copy_ok T x =
     (is_primitive (kind T) \<or>
      (case Equatable T of None \<Rightarrow> False | Some eq \<Rightarrow> CopyNewer T \<noteq> None \<and> eq (copier T x) x))"

definition set_Value :: "addr \<Rightarrow> 'p \<Rightarrow> 'p key_store \<Rightarrow> 'p key_store" where
  "set_Value a p k = k\<lparr>keys := (keys k)(a := (keys k a)\<lparr>sk_Value := p\<rparr>)\<rparr>"

definition engine_copy_ok :: "'p ring_engine \<Rightarrow> 'p \<Rightarrow> bool" where
  "engine_copy_ok E p = (poly_CopyNew E p = p)"

definition h_example :: "64 word heap" where
  "h_example = \<lparr>mats = (\<lambda>a. if a = 0 then [Some 1, Some 2] else []),
                rows = (\<lambda>a. if a = 1 then [1] else if a = 2 then [2, 3] else []),
                brk = 3\<rparr>"

definition k_example :: "64 word key_store" where
  "k_example = \<lparr>keys = (\<lambda>a. \<lparr>sk_Value = 5\<rparr>), next_key = 1\<rparr>"

section \<open>Lemmas on the stream adapter and the codec\<close>

lemma length_put_le: "length (put_le k n) = k"
  by (induction k arbitrary: n) auto

lemma get_put_le: "get_le (put_le k n) = n mod 256 ^ k"
proof (induction k arbitrary: n)
  case 0
  then show ?case by simp
next
  case (Suc k)
  have "unat (of_nat n :: byte) = n mod 256"
    by (simp add: unat_of_nat)
  then show ?case
    using Suc [of "n div 256"] by (simp add: mod_mult2_eq)
qed

lemma get_put_le8: "n < 2 ^ 64 \<Longrightarrow> get_le (put_le 8 n) = n"
  by (simp only: get_put_le) simp

lemma Write_shape:
  "Write bs w = (k, e, w') \<Longrightarrow> frame w' = frame w"
  by (induction w arbitrary: bs k e w') (auto split: if_splits prod.splits option.splits)

lemma Write_None:
  "Write bs w = (k, None, w') \<Longrightarrow> k = length bs \<and> stream w' = stream w @ bs"
  by (induction w arbitrary: bs k w') (auto split: if_splits prod.splits option.splits)

lemma Flush_shape:
  "Flush w = (e, w') \<Longrightarrow> frame w' = frame w"
  by (cases w) (auto split: prod.splits option.splits dest: Write_shape)

lemma Flush_None:
  "Flush w = (None, w') \<Longrightarrow> stream w' = stream w"
  by (cases w) (auto split: prod.splits option.splits dest: Write_None)

lemma remaining_seek [simp]: "remaining (seek bs r) = bs"
  by (cases r) auto

lemma seek_seek [simp]: "seek bs (seek bs' r) = seek bs r"
  by (cases r) auto

lemma is_buffer_Reader_seek [simp]: "is_buffer_Reader (seek bs r) = is_buffer_Reader r"
  by (cases r) auto

lemma seek_remaining [simp]: "seek (remaining r) r = r"
  by (cases r) auto

subsection \<open>Writing\<close>

lemma Vector_WriteTo_elems_shape:
  "Vector_WriteTo_elems T xs n w = (n', e, w') \<Longrightarrow>
     frame w' = frame w"
proof (induction xs arbitrary: n w)
  case Nil
  then show ?case by simp
next
  case (Cons x xs)
  show ?case
  proof (cases "put T x")
    case (Inl err)
    with Cons.prems show ?thesis by simp
  next
    case (Inr bs)
    obtain inc e1 w1 where W: "Write bs w = (inc, e1, w1)"
      by (cases "Write bs w") auto
    show ?thesis
    proof (cases e1)
      case None
      with Cons.prems Inr W have "Vector_WriteTo_elems T xs (n + inc) w1 = (n', e, w')" by simp
      from Cons.IH [OF this] Write_shape [OF W] show ?thesis by simp
    next
      case (Some err)
      with Cons.prems Inr W Write_shape [OF W] show ?thesis by auto
    qed
  qed
qed

lemma Vector_WriteTo_elems_None:
  "Vector_WriteTo_elems T xs n w = (n', None, w') \<Longrightarrow>
     (\<forall>x \<in> set xs. writable T x) \<and>
     n' = n + length (concat (map (elem_bytes T) xs)) \<and>
     stream w' = stream w @ concat (map (elem_bytes T) xs)"
proof (induction xs arbitrary: n w)
  case Nil
  then show ?case by simp
next
  case (Cons x xs)
  show ?case
  proof (cases "put T x")
    case (Inl err)
    with Cons.prems show ?thesis by simp
  next
    case (Inr bs)
    obtain inc e1 w1 where W: "Write bs w = (inc, e1, w1)"
      by (cases "Write bs w") auto
    show ?thesis
    proof (cases e1)
      case None
      with Cons.prems Inr W have "Vector_WriteTo_elems T xs (n + inc) w1 = (n', None, w')" by simp
      from Cons.IH [OF this] Write_None [OF W [unfolded None]] Inr show ?thesis
        by (simp add: writable_def elem_bytes_def)
    next
      case (Some err)
      with Cons.prems Inr W show ?thesis by auto
    qed
  qed
qed

lemma Vector_WriteTo_shape:
  "Vector_WriteTo T v w = (n, e, w') \<Longrightarrow>
     frame w' = frame w"
proof -
  assume A: "Vector_WriteTo T v w = (n, e, w')"
  obtain inc e1 w1 where W: "Write (put_le 8 (length v)) w = (inc, e1, w1)"
    by (cases "Write (put_le 8 (length v)) w") auto
  show ?thesis
  proof (cases e1)
    case None
    with A W have E: "Vector_WriteTo_elems T v inc w1 = (n, e, w')"
      by (simp add: Vector_WriteTo_def WriteAsUint64_def)
    from Vector_WriteTo_elems_shape [OF E] Write_shape [OF W] show ?thesis by simp
  next
    case (Some err)
    with A W Write_shape [OF W] show ?thesis
      by (auto simp: Vector_WriteTo_def WriteAsUint64_def)
  qed
qed

lemma Vector_WriteTo_None:
  assumes "Vector_WriteTo T v w = (n, None, w')"
  shows "(\<forall>x \<in> set v. writable T x) \<and> n = length (Vector_bytes T v) \<and>
         stream w' = stream w @ Vector_bytes T v"
proof -
  obtain inc e1 w1 where W: "Write (put_le 8 (length v)) w = (inc, e1, w1)"
    by (cases "Write (put_le 8 (length v)) w") auto
  show ?thesis
  proof (cases e1)
    case None
    with assms W have E: "Vector_WriteTo_elems T v inc w1 = (n, None, w')"
      by (simp add: Vector_WriteTo_def WriteAsUint64_def)
    from Vector_WriteTo_elems_None [OF E] Write_None [OF W [unfolded None]] show ?thesis
      by (simp add: Vector_bytes_def length_put_le)
  next
    case (Some err)
    with assms W show ?thesis by (simp add: Vector_WriteTo_def WriteAsUint64_def)
  qed
qed

lemma WriteTo_rows_shape:
  "WriteTo_rows T m n w = (n', e, w') \<Longrightarrow>
     frame w' = frame w"
proof (induction m arbitrary: n w)
  case Nil
  then show ?case by (auto split: prod.splits dest: Flush_shape)
next
  case (Cons v vs)
  obtain inc e1 w1 where V: "Vector_WriteTo T v w = (inc, e1, w1)"
    by (cases "Vector_WriteTo T v w") auto
  show ?case
  proof (cases e1)
    case None
    with Cons.prems V have "WriteTo_rows T vs (n + inc) w1 = (n', e, w')" by simp
    from Cons.IH [OF this] Vector_WriteTo_shape [OF V] show ?thesis by simp
  next
    case (Some err)
    with Cons.prems V Vector_WriteTo_shape [OF V] show ?thesis by auto
  qed
qed

lemma WriteTo_rows_None:
  "WriteTo_rows T m n w = (n', None, w') \<Longrightarrow>
     (\<forall>v \<in> set m. \<forall>x \<in> set v. writable T x) \<and>
     n' = n + length (concat (map (Vector_bytes T) m)) \<and>
     stream w' = stream w @ concat (map (Vector_bytes T) m) \<and>
     (\<exists>w0. Flush w0 = (None, w'))"
proof (induction m arbitrary: n w)
  case Nil
  then show ?case by (auto split: prod.splits dest: Flush_None)
next
  case (Cons v vs)
  obtain inc e1 w1 where V: "Vector_WriteTo T v w = (inc, e1, w1)"
    by (cases "Vector_WriteTo T v w") auto
  show ?case
  proof (cases e1)
    case None
    with Cons.prems V have "WriteTo_rows T vs (n + inc) w1 = (n', None, w')" by simp
    from Cons.IH [OF this] Vector_WriteTo_None [OF V [unfolded None]] show ?thesis by simp
  next
    case (Some err)
    with Cons.prems V show ?thesis by auto
  qed
qed

lemma Matrix_WriteTo_buffered_None:
  assumes "is_buffer_Writer w" and "Matrix_WriteTo T m w = (n, None, w')"
  shows "(\<forall>v \<in> set m. \<forall>x \<in> set v. writable T x) \<and> n = length (Matrix_bytes T m) \<and>
         stream w' = stream w @ Matrix_bytes T m \<and> (\<exists>w0. Flush w0 = (None, w'))"
proof -
  obtain inc e1 w1 where W: "Write (put_le 8 (length m)) w = (inc, e1, w1)"
    by (cases "Write (put_le 8 (length m)) w") auto
  show ?thesis
  proof (cases e1)
    case None
    with assms W have E: "WriteTo_rows T m inc w1 = (n, None, w')"
      by (simp add: Matrix_WriteTo.simps WriteAsUint64_def)
    from WriteTo_rows_None [OF E] Write_None [OF W [unfolded None]] show ?thesis
      by (simp add: Matrix_bytes_def length_put_le)
  next
    case (Some err)
    with assms W show ?thesis by (simp add: Matrix_WriteTo.simps WriteAsUint64_def)
  qed
qed

lemma Matrix_WriteTo_wrap:
  "\<not> is_buffer_Writer w \<Longrightarrow> Matrix_WriteTo T m w = Matrix_WriteTo T m (bufio_NewWriter w)"
  by (subst Matrix_WriteTo.simps) simp

lemma Matrix_WriteTo_None:
  assumes "Matrix_WriteTo T m w = (n, None, w')"
  shows "(\<forall>v \<in> set m. \<forall>x \<in> set v. writable T x) \<and> n = length (Matrix_bytes T m) \<and>
         stream w' = stream w @ Matrix_bytes T m"
proof (cases "is_buffer_Writer w")
  case True
  from Matrix_WriteTo_buffered_None [OF True assms] show ?thesis by simp
next
  case False
  have B: "is_buffer_Writer (bufio_NewWriter w)" by (simp add: bufio_NewWriter_def)
  from assms False have "Matrix_WriteTo T m (bufio_NewWriter w) = (n, None, w')"
    by (simp add: Matrix_WriteTo_wrap)
  from Matrix_WriteTo_buffered_None [OF B this] show ?thesis
    by (simp add: bufio_NewWriter_def)
qed

lemma fold_add_sum_list: "fold (\<lambda>v sz. sz + f v) m (a::nat) = a + sum_list (map f m)"
  by (induction m arbitrary: a) auto

lemma Matrix_BinarySize_sum:
  "Matrix_BinarySize T m = 8 + sum_list (map (Vector_BinarySize T) m)"
  by (simp add: Matrix_BinarySize_def fold_add_sum_list)

lemma length_concat_sizes:
  "(\<forall>x \<in> set xs. length (f x) = g x) \<Longrightarrow> length (concat (map f xs)) = sum_list (map g xs)"
  by (induction xs) auto

lemma length_Vector_bytes:
  "\<forall>x \<in> set v. codec_ok T x \<Longrightarrow> length (Vector_bytes T v) = Vector_BinarySize T v"
  using length_concat_sizes [of v "elem_bytes T" "size_of T"]
  by (simp add: Vector_bytes_def Vector_BinarySize_def length_put_le codec_ok_def)

lemma length_Matrix_bytes:
  "\<forall>v \<in> set m. \<forall>x \<in> set v. codec_ok T x \<Longrightarrow> length (Matrix_bytes T m) = Matrix_BinarySize T m"
  using length_concat_sizes [of m "Vector_bytes T" "Vector_BinarySize T"]
  by (simp add: Matrix_bytes_def Matrix_BinarySize_sum length_put_le length_Vector_bytes)

subsection \<open>Reading\<close>

lemma ReadAsUint64_put_le:
  assumes "c < 2 ^ 64" and "remaining r = put_le 8 c @ rest"
  shows "ReadAsUint64 r = (8, Inr c, seek rest r)"
  using assms by (simp add: ReadAsUint64_def length_put_le get_put_le8)

lemma Vector_ReadFrom_elems_bytes:
  "\<forall>x \<in> set xs. codec_ok T x \<Longrightarrow> remaining r = concat (map (elem_bytes T) xs) @ rest \<Longrightarrow>
     Vector_ReadFrom_elems T (length xs) n r =
       (n + length (concat (map (elem_bytes T) xs)), Inr xs, seek rest r)"
proof (induction xs arbitrary: n r)
  case Nil
  then show ?case by (cases r) auto
next
  case (Cons x xs)
  let ?tl = "concat (map (elem_bytes T) xs) @ rest"
  from Cons.prems have R: "remaining r = elem_bytes T x @ ?tl" by simp
  from Cons.prems have G: "get T (elem_bytes T x @ ?tl) = Inr (x, ?tl)"
    by (simp add: codec_ok_def)
  have "Vector_ReadFrom_elems T (length xs) (n + length (elem_bytes T x)) (seek ?tl r) =
          (n + length (elem_bytes T x) + length (concat (map (elem_bytes T) xs)), Inr xs,
           seek rest (seek ?tl r))"
    using Cons.prems by (intro Cons.IH) auto
  then show ?case using R G by simp
qed

lemma Vector_ReadFrom_bytes:
  assumes "valid_Vector T v" and "remaining r = Vector_bytes T v @ rest"
  shows "Vector_ReadFrom T r = (length (Vector_bytes T v), Inr v, seek rest r)"
proof -
  let ?tl = "concat (map (elem_bytes T) v) @ rest"
  from assms have L: "length v < 2 ^ 64" and C: "\<forall>x \<in> set v. codec_ok T x"
    by (auto simp: valid_Vector_def intro: less_trans)
  from assms have "remaining r = put_le 8 (length v) @ ?tl"
    by (simp add: Vector_bytes_def)
  from ReadAsUint64_put_le [OF L this]
  have H: "ReadAsUint64 r = (8, Inr (length v), seek ?tl r)" .
  have "Vector_ReadFrom_elems T (length v) 8 (seek ?tl r) =
          (8 + length (concat (map (elem_bytes T) v)), Inr v, seek rest (seek ?tl r))"
    using C by (intro Vector_ReadFrom_elems_bytes) auto
  with H show ?thesis
    by (simp add: Vector_ReadFrom_def Vector_bytes_def length_put_le)
qed

lemma ReadFrom_rows_bytes:
  "\<forall>v \<in> set m. valid_Vector T v \<Longrightarrow> remaining r = concat (map (Vector_bytes T) m) @ rest \<Longrightarrow>
     ReadFrom_rows T (length m) n r =
       (n + length (concat (map (Vector_bytes T) m)), Inr m, seek rest r)"
proof (induction m arbitrary: n r)
  case Nil
  then show ?case by (cases r) auto
next
  case (Cons v vs)
  let ?tl = "concat (map (Vector_bytes T) vs) @ rest"
  from Cons.prems have V: "valid_Vector T v" and R: "remaining r = Vector_bytes T v @ ?tl"
    by auto
  from Vector_ReadFrom_bytes [OF V R]
  have H: "Vector_ReadFrom T r = (length (Vector_bytes T v), Inr v, seek ?tl r)" .
  have "ReadFrom_rows T (length vs) (n + length (Vector_bytes T v)) (seek ?tl r) =
          (n + length (Vector_bytes T v) + length (concat (map (Vector_bytes T) vs)), Inr vs,
           seek rest (seek ?tl r))"
    using Cons.prems by (intro Cons.IH) auto
  with H show ?case by simp
qed

lemma Matrix_ReadFrom_buffered_bytes:
  assumes "is_buffer_Reader r" and "valid_Matrix T m" and "remaining r = Matrix_bytes T m @ rest"
  shows "Matrix_ReadFrom T r = (length (Matrix_bytes T m), Inr m, seek rest r)"
proof -
  let ?tl = "concat (map (Vector_bytes T) m) @ rest"
  from assms have L: "length m < 2 ^ 64" and C: "\<forall>v \<in> set m. valid_Vector T v"
    by (auto simp: valid_Matrix_def intro: less_trans)
  from assms have "remaining r = put_le 8 (length m) @ ?tl"
    by (simp add: Matrix_bytes_def)
  from ReadAsUint64_put_le [OF L this]
  have H: "ReadAsUint64 r = (8, Inr (length m), seek ?tl r)" .
  have "ReadFrom_rows T (length m) 8 (seek ?tl r) =
          (8 + length (concat (map (Vector_bytes T) m)), Inr m, seek rest (seek ?tl r))"
    using C by (intro ReadFrom_rows_bytes) auto
  with H assms(1) show ?thesis
    by (simp add: Matrix_ReadFrom.simps Matrix_bytes_def length_put_le)
qed

lemma Matrix_ReadFrom_bytes:
  assumes "valid_Matrix T m" and "remaining r = Matrix_bytes T m @ rest"
  shows "Matrix_ReadFrom T r = (length (Matrix_bytes T m), Inr m, Reader rest)"
proof (cases r)
  case (Source bs)
  have "Matrix_ReadFrom T (Reader bs) = (length (Matrix_bytes T m), Inr m, seek rest (Reader bs))"
    using assms Source by (intro Matrix_ReadFrom_buffered_bytes) auto
  with Source show ?thesis
    by (subst Matrix_ReadFrom.simps) (simp add: bufio_NewReader_def)
next
  case (Reader bs)
  have "Matrix_ReadFrom T (Reader bs) = (length (Matrix_bytes T m), Inr m, seek rest (Reader bs))"
    using assms Reader by (intro Matrix_ReadFrom_buffered_bytes) auto
  with Reader show ?thesis by simp
qed

subsection \<open>Equal on a matrix and itself\<close>

lemma Vector_Equal_refl:
  "supports_Equal T \<Longrightarrow> \<forall>x \<in> set v. equatable_ok T x \<Longrightarrow> Vector_Equal T v v = Inr True"
  by (auto simp: Vector_Equal_def equatable_ok_def supports_Equal_def list_all2_same
      split: option.splits)

lemma Equal_rows_refl:
  "supports_Equal T \<Longrightarrow> \<forall>v \<in> set vs. \<forall>x \<in> set v. equatable_ok T x \<Longrightarrow>
     Equal_rows T vs (pre @ vs) (length pre) True = Inr True"
proof (induction vs arbitrary: pre)
  case Nil
  then show ?case by simp
next
  case (Cons v vs)
  from Cons.prems have "Vector_Equal T v v = Inr True"
    by (intro Vector_Equal_refl) auto
  moreover have "Equal_rows T vs ((pre @ [v]) @ vs) (length (pre @ [v])) True = Inr True"
    using Cons.prems by (intro Cons.IH) auto
  ultimately show ?case by simp
qed

section \<open>Claims\<close>

subsection \<open>Rejection of an unsupported element type\<close>

lemma Equal_rows_no_NotComply:
  "supports_Equal T \<Longrightarrow> Equal_rows T m other i b \<noteq> Inl (NotComply a c)"
  by (induction m arbitrary: i b)
    (auto simp: Vector_Equal_def supports_Equal_def split: option.splits)

text \<open>
  Claim C9. When \<open>T\<close> is none of the numeric kinds and does not implement the
  interface that the method needs (\<^verbatim>\<open>CopyNewer\<close> for \<^verbatim>\<open>CopyNew\<close>, \<^verbatim>\<open>Equatable\<close> for
  \<^verbatim>\<open>Equal\<close>), \<^verbatim>\<open>CopyNew\<close> and \<^verbatim>\<open>Equal\<close> panic with the message that \<open>T\<close> does not comply,
  whatever the matrix is, the empty one included. When \<open>T\<close> is a numeric kind or implements
  the interface, \<^verbatim>\<open>CopyNew\<close> returns and \<^verbatim>\<open>Equal\<close> never panics with that message.
\<close>

theorem Matrix_rejects_unsupported_T:
  "(\<not> is_primitive (kind T) \<and> CopyNewer T = None \<longrightarrow>
      Matrix_CopyNew T m h = Inl (NotComply (type_name (kind T)) ''CopyNewer''))
   \<and> (\<not> is_primitive (kind T) \<and> Equatable T = None \<longrightarrow>
      Matrix_Equal T x other = Inl (NotComply (type_name (kind T)) ''Equatable''))
   \<and> (is_primitive (kind T) \<or> CopyNewer T \<noteq> None \<longrightarrow>
      (\<exists>mcpy h'. Matrix_CopyNew T m h = Inr (mcpy, h')))
   \<and> (is_primitive (kind T) \<or> Equatable T \<noteq> None \<longrightarrow>
      (\<forall>a c. Matrix_Equal T x other \<noteq> Inl (NotComply a c)))"
proof (intro conjI impI allI)
  assume "\<not> is_primitive (kind T) \<and> CopyNewer T = None"
  then show "Matrix_CopyNew T m h = Inl (NotComply (type_name (kind T)) ''CopyNewer'')"
    by (simp add: Matrix_CopyNew_def)
next
  assume "\<not> is_primitive (kind T) \<and> Equatable T = None"
  then show "Matrix_Equal T x other = Inl (NotComply (type_name (kind T)) ''Equatable'')"
    by (simp add: Matrix_Equal_def)
next
  assume "is_primitive (kind T) \<or> CopyNewer T \<noteq> None"
  then show "\<exists>mcpy h'. Matrix_CopyNew T m h = Inr (mcpy, h')"
    by (auto simp: Matrix_CopyNew_def split: prod.splits)
next
  fix a c
  assume A: "is_primitive (kind T) \<or> Equatable T \<noteq> None"
  then have s: "supports_Equal T" by (simp add: supports_Equal_def)
  show "Matrix_Equal T x other \<noteq> Inl (NotComply a c)"
    using Equal_rows_no_NotComply [OF s, of x other 0 True a c] A
    by (auto simp: Matrix_Equal_def split: option.splits)
qed

text \<open>
  The theorem at a struct type with no methods and at \<^verbatim>\<open>uint64\<close>, on a matrix with no
  rows.
\<close>

theorem Matrix_rejects_unsupported_T_witness:
  "Matrix_CopyNew T_plain 0 empty_heap = Inl (NotComply ''struct {}'' ''CopyNewer'')
   \<and> Matrix_Equal T_plain [] [] = Inl (NotComply ''struct {}'' ''Equatable'')
   \<and> (\<exists>mcpy h'. Matrix_CopyNew T_uint64 0 empty_heap = Inr (mcpy, h'))
   \<and> Matrix_Equal T_uint64 [] [] \<noteq> Inl (NotComply ''uint64'' ''Equatable'')"
  using Matrix_rejects_unsupported_T [of T_plain 0 empty_heap "[]" "[]"]
    Matrix_rejects_unsupported_T [of T_uint64 0 empty_heap "[]" "[]"]
  by (simp add: T_plain_def T_uint64_def)

subsection \<open>Equal and the row count\<close>

text \<open>
  Claim C3 says that \<^verbatim>\<open>m.Equal(other)\<close> is true exactly when the two matrices have the same
  row count and equal rows. The loop of \<^verbatim>\<open>Equal\<close> runs over the rows of \<open>m\<close> only and never
  compares the two lengths: a matrix equals every matrix that it is a prefix of, and the
  call panics on a matrix that is longer than an \<open>other\<close> which it agrees with.
\<close>

theorem Matrix_Equal_ignores_row_count:
  "Matrix_Equal T_uint64 [] [[1]] = Inr True
   \<and> Matrix_Equal T_uint64 [[1]] [[1], [2]] = Inr True
   \<and> Matrix_Equal T_uint64 [[1], [2]] [[1]] = Inl (IndexOutOfRange 1 1)"
  by (simp add: Matrix_Equal_def Vector_Equal_def T_uint64_def)

subsection \<open>CopyNew of a nil secret key\<close>

text \<open>
  Claim C10. \<^verbatim>\<open>CopyNew\<close> on a nil \<^verbatim>\<open>*SecretKey\<close> returns nil and reads nothing through
  the receiver (the store is left as it is); on a receiver that is not nil it returns a
  pointer that is not nil, to a key whose value is the ring engine's copy of the
  receiver's value.
\<close>

theorem SecretKey_CopyNew_nil:
  "SecretKey_CopyNew E None h = (None, h)
   \<and> (\<forall>a. \<exists>b h'. SecretKey_CopyNew E (Some a) h = (Some b, h')
          \<and> keys h' b = \<lparr>sk_Value = poly_CopyNew E (sk_Value (keys h a))\<rparr>)"
  by (simp add: SecretKey_CopyNew_def)

subsection \<open>The two halves of a new RGSW ciphertext\<close>

text \<open>
  Claim C6. \<^verbatim>\<open>NewCiphertext(params, levelQ, levelP, BaseTwoDecomposition)\<close> holds exactly two
  gadget ciphertexts, both allocated by \<^verbatim>\<open>rlwe.NewGadgetCiphertext\<close> with the same arguments
  (degree 1), so they have the same \<open>LevelQ\<close>, the same \<open>LevelP\<close> and the same digits; and
  \<^verbatim>\<open>LevelQ()\<close> and \<^verbatim>\<open>LevelP()\<close> of any ciphertext are those of its first half, no field
  stores them. The allocator is taken as a function of its arguments.
\<close>

theorem NewCiphertext_halves:
  "ct_Value (NewCiphertext R params levelQ levelP b) =
     (NewGadgetCiphertext R params 1 levelQ levelP b, NewGadgetCiphertext R params 1 levelQ levelP b)
   \<and> gct_LevelQ R (fst (ct_Value (NewCiphertext R params levelQ levelP b))) =
       gct_LevelQ R (snd (ct_Value (NewCiphertext R params levelQ levelP b)))
   \<and> gct_LevelP R (fst (ct_Value (NewCiphertext R params levelQ levelP b))) =
       gct_LevelP R (snd (ct_Value (NewCiphertext R params levelQ levelP b)))
   \<and> digits (fst (ct_Value (NewCiphertext R params levelQ levelP b))) =
       digits (snd (ct_Value (NewCiphertext R params levelQ levelP b)))
   \<and> Ciphertext_LevelQ R ct = gct_LevelQ R (fst (ct_Value ct))
   \<and> Ciphertext_LevelP R ct = gct_LevelP R (fst (ct_Value ct))"
  by (simp add: NewCiphertext_def Ciphertext_LevelQ_def Ciphertext_LevelP_def)

subsection \<open>The element types of the examples\<close>

lemma put_le_8:
  "put_le 8 n = [of_nat n, of_nat (n div 256), of_nat (n div 256 div 256),
     of_nat (n div 256 div 256 div 256), of_nat (n div 256 div 256 div 256 div 256),
     of_nat (n div 256 div 256 div 256 div 256 div 256),
     of_nat (n div 256 div 256 div 256 div 256 div 256 div 256),
     of_nat (n div 256 div 256 div 256 div 256 div 256 div 256 div 256)]"
proof -
  have "(8::nat) = Suc (Suc (Suc (Suc (Suc (Suc (Suc (Suc 0)))))))" by simp
  then show ?thesis by (simp only: put_le.simps)
qed

lemma unat_lt_2_64: "unat (x :: 64 word) < 2 ^ 64"
  using unsigned_less [of x] by simp

lemma word_get_put_le8: "of_nat (get_le (put_le 8 (unat x))) = (x :: 64 word)"
proof -
  have "get_le (put_le 8 (unat x)) = unat x"
    by (rule get_put_le8) (rule unat_lt_2_64)
  then show ?thesis by simp
qed

lemma codec_ok_T_uint64: "codec_ok T_uint64 x"
  by (simp add: codec_ok_def writable_def elem_bytes_def T_uint64_def length_put_le
      word_get_put_le8)

lemma codec_ok_T_big: "x < 2 ^ 64 \<Longrightarrow> codec_ok T_big x"
  by (simp add: codec_ok_def writable_def elem_bytes_def T_big_def length_put_le get_put_le8)

lemma elem_bytes_T_uint64: "elem_bytes T_uint64 x = put_le 8 (unat x)"
  by (simp add: elem_bytes_def T_uint64_def)

lemma put_le_8_small: "n < 256 \<Longrightarrow> put_le 8 n = [of_nat n, 0, 0, 0, 0, 0, 0, 0]"
  by (simp add: put_le_8)

lemma Matrix_bytes_uint64_example:
  "Matrix_bytes T_uint64 [[1], [2, 3]] =
     [2, 0, 0, 0, 0, 0, 0, 0, 1, 0, 0, 0, 0, 0, 0, 0, 1, 0, 0, 0, 0, 0, 0, 0,
      2, 0, 0, 0, 0, 0, 0, 0, 2, 0, 0, 0, 0, 0, 0, 0, 3, 0, 0, 0, 0, 0, 0, 0]"
  by (simp add: Matrix_bytes_def Vector_bytes_def elem_bytes_T_uint64 put_le_8_small)


lemma put_T_uint64: "put T_uint64 x = Inr (put_le 8 (unat x))"
  by (simp add: T_uint64_def)

lemma kind_T_uint64: "kind T_uint64 = Kuint64"
  by (simp add: T_uint64_def)

lemma Matrix_WriteTo_uint64_example:
  "Matrix_WriteTo T_uint64 [[1], [2, 3]] (channel 100) =
     (48, None, Bufio 4096 []
        (Sink \<lparr>accepted =
          [2, 0, 0, 0, 0, 0, 0, 0, 1, 0, 0, 0, 0, 0, 0, 0, 1, 0, 0, 0, 0, 0, 0, 0,
           2, 0, 0, 0, 0, 0, 0, 0, 2, 0, 0, 0, 0, 0, 0, 0, 3, 0, 0, 0, 0, 0, 0, 0],
          quota = 52\<rparr>))"
  by (simp add: Matrix_WriteTo.simps channel_def bufio_NewWriter_def WriteAsUint64_def
      Vector_WriteTo_def put_T_uint64 put_le_8_small)

lemma valid_uint64_example: "valid_Matrix T_uint64 [[1], [2, 3]]"
  by (simp add: valid_Matrix_def valid_Vector_def codec_ok_T_uint64)

subsection \<open>Size exactness\<close>

text \<open>
  Claim C2. \<^verbatim>\<open>m.BinarySize()\<close> is the eight bytes of the row count plus the sum of the
  \<^verbatim>\<open>BinarySize\<close> of the rows. For a valid matrix, a \<^verbatim>\<open>WriteTo\<close> that succeeds returns
  \<^verbatim>\<open>m.BinarySize()\<close> and has added exactly the encoding of \<open>m\<close>, of that many bytes, to
  what the writer had taken before; and \<^verbatim>\<open>ReadFrom\<close> on a source that starts with the
  encoding of \<open>m\<close> returns \<open>m\<close> and \<^verbatim>\<open>m.BinarySize()\<close>, and leaves the reader right after
  those bytes.
\<close>

theorem Matrix_size_exact:
  "Matrix_BinarySize T m = 8 + sum_list (map (Vector_BinarySize T) m)
   \<and> (valid_Matrix T m \<and> Matrix_WriteTo T m w = (n, None, w') \<longrightarrow>
        n = Matrix_BinarySize T m \<and> stream w' = stream w @ Matrix_bytes T m
        \<and> length (Matrix_bytes T m) = Matrix_BinarySize T m)
   \<and> (valid_Matrix T m \<and> remaining r = Matrix_bytes T m @ rest \<longrightarrow>
        Matrix_ReadFrom T r = (Matrix_BinarySize T m, Inr m, Reader rest)
        \<and> length (remaining r) - length rest = Matrix_BinarySize T m)"
proof (intro conjI impI)
  show "Matrix_BinarySize T m = 8 + sum_list (map (Vector_BinarySize T) m)"
    by (rule Matrix_BinarySize_sum)
next
  assume A: "valid_Matrix T m \<and> Matrix_WriteTo T m w = (n, None, w')"
  then have L: "length (Matrix_bytes T m) = Matrix_BinarySize T m"
    by (intro length_Matrix_bytes) (auto simp: valid_Matrix_def valid_Vector_def)
  from A Matrix_WriteTo_None [of T m w n w'] L
  show "n = Matrix_BinarySize T m" "stream w' = stream w @ Matrix_bytes T m"
    "length (Matrix_bytes T m) = Matrix_BinarySize T m"
    by simp_all
next
  assume A: "valid_Matrix T m \<and> remaining r = Matrix_bytes T m @ rest"
  then have L: "length (Matrix_bytes T m) = Matrix_BinarySize T m"
    by (intro length_Matrix_bytes) (auto simp: valid_Matrix_def valid_Vector_def)
  from A Matrix_ReadFrom_bytes [of T m r rest] L
  show "Matrix_ReadFrom T r = (Matrix_BinarySize T m, Inr m, Reader rest)"
    "length (remaining r) - length rest = Matrix_BinarySize T m"
    by simp_all
qed

text \<open>The theorem at the \<^verbatim>\<open>uint64\<close> matrix \<open>[[1], [2, 3]]\<close>, of 48 bytes.\<close>

theorem Matrix_size_exact_witness:
  "valid_Matrix T_uint64 [[1], [2, 3]]
   \<and> Matrix_WriteTo T_uint64 [[1], [2, 3]] (channel 100) =
       (48, None, Bufio 4096 [] (Sink \<lparr>accepted = Matrix_bytes T_uint64 [[1], [2, 3]], quota = 52\<rparr>))
   \<and> Matrix_BinarySize T_uint64 [[1], [2, 3]] = 48
   \<and> length (Matrix_bytes T_uint64 [[1], [2, 3]]) = 48
   \<and> Matrix_ReadFrom T_uint64 (Source (Matrix_bytes T_uint64 [[1], [2, 3]] @ [7])) =
       (48, Inr [[1], [2, 3]], Reader [7])"
proof -
  have W: "Matrix_WriteTo T_uint64 [[1], [2, 3]] (channel 100) =
       (48, None, Bufio 4096 [] (Sink \<lparr>accepted = Matrix_bytes T_uint64 [[1], [2, 3]], quota = 52\<rparr>))"
    by (simp only: Matrix_WriteTo_uint64_example Matrix_bytes_uint64_example)
  have R: "remaining (Source (Matrix_bytes T_uint64 [[1], [2, 3]] @ [7])) =
       Matrix_bytes T_uint64 [[1], [2, 3]] @ [7]"
    by simp
  from Matrix_size_exact [of T_uint64 "[[1], [2, 3]]" "channel 100" 48
      "Bufio 4096 [] (Sink \<lparr>accepted = Matrix_bytes T_uint64 [[1], [2, 3]], quota = 52\<rparr>)"
      "Source (Matrix_bytes T_uint64 [[1], [2, 3]] @ [7])" "[7]"]
    valid_uint64_example W R
  show ?thesis by simp
qed

subsection \<open>The codec of an RGSW ciphertext\<close>

lemma engine_round_trip_E_word: "engine_round_trip E_word p"
  unfolding engine_round_trip_def
proof (intro allI impI)
  fix w n w' recv r
  assume A: "poly_WriteTo E_word p w = (n, None, w') \<and>
             remaining r = drop (length (stream w)) (stream w')"
  then have W: "Write (put_le 8 (unat p)) w = (n, None, w')" by (simp add: E_word_def)
  from Write_None [OF W] A have "n = 8" "remaining r = put_le 8 (unat p)"
    by (simp_all add: length_put_le)
  then show "\<exists>r'. poly_ReadFrom E_word recv r = (n, None, p, r')"
    by (simp add: E_word_def length_put_le word_get_put_le8)
qed

lemma Ciphertext_WriteTo_buffered:
  "is_buffer_Writer w \<Longrightarrow>
     Ciphertext_WriteTo T ct w =
       (case Matrix_WriteTo T (gct_Value (fst (ct_Value ct))) w of
          (n, Some err, w') \<Rightarrow> (n, Some err, w')
        | (n, None, w') \<Rightarrow>
            (case Matrix_WriteTo T (gct_Value (snd (ct_Value ct))) w' of
               (inc, err, w'') \<Rightarrow> (n + inc, err, w'')))"
  by (subst Ciphertext_WriteTo.simps)
    (simp add: GadgetCiphertext_WriteTo_def split: prod.splits option.splits)

lemma Ciphertext_WriteTo_wrap:
  "\<not> is_buffer_Writer w \<Longrightarrow> Ciphertext_WriteTo T ct w = Ciphertext_WriteTo T ct (bufio_NewWriter w)"
  by (subst Ciphertext_WriteTo.simps) simp

lemma Ciphertext_WriteTo_buffered_None:
  assumes "is_buffer_Writer w" and "Ciphertext_WriteTo T ct w = (n, None, w')"
  shows "n = length (Ciphertext_bytes T ct) \<and> stream w' = stream w @ Ciphertext_bytes T ct"
proof -
  obtain n0 e0 w0 where W0: "Matrix_WriteTo T (gct_Value (fst (ct_Value ct))) w = (n0, e0, w0)"
    by (cases "Matrix_WriteTo T (gct_Value (fst (ct_Value ct))) w") auto
  show ?thesis
  proof (cases e0)
    case None
    obtain n1 e1 w1 where W1: "Matrix_WriteTo T (gct_Value (snd (ct_Value ct))) w0 = (n1, e1, w1)"
      by (cases "Matrix_WriteTo T (gct_Value (snd (ct_Value ct))) w0") auto
    from assms(2) W0 W1 None have "n = n0 + n1" "e1 = None" "w' = w1"
      by (simp_all add: Ciphertext_WriteTo_buffered [OF assms(1)])
    with Matrix_WriteTo_None [OF W0 [unfolded None]] Matrix_WriteTo_None [of T _ w0 n1 w1] W1
    show ?thesis by (simp add: Ciphertext_bytes_def)
  next
    case (Some err)
    with assms(2) W0 show ?thesis
      by (simp add: Ciphertext_WriteTo_buffered [OF assms(1)])
  qed
qed

lemma Ciphertext_WriteTo_None:
  assumes "Ciphertext_WriteTo T ct w = (n, None, w')"
  shows "n = length (Ciphertext_bytes T ct) \<and> stream w' = stream w @ Ciphertext_bytes T ct"
proof (cases "is_buffer_Writer w")
  case True
  from Ciphertext_WriteTo_buffered_None [OF True assms] show ?thesis .
next
  case False
  have B: "is_buffer_Writer (bufio_NewWriter w)" by (simp add: bufio_NewWriter_def)
  from assms have "Ciphertext_WriteTo T ct (bufio_NewWriter w) = (n, None, w')"
    by (simp only: Ciphertext_WriteTo_wrap [OF False])
  from Ciphertext_WriteTo_buffered_None [OF B this] show ?thesis
    by (simp add: bufio_NewWriter_def)
qed

lemma Ciphertext_ReadFrom_buffered_bytes:
  assumes "is_buffer_Reader r" and "valid_Ciphertext T ct"
    and "remaining r = Ciphertext_bytes T ct @ rest"
  shows "Ciphertext_ReadFrom T r = (length (Ciphertext_bytes T ct), Inr ct, Reader rest)"
proof -
  let ?m0 = "gct_Value (fst (ct_Value ct))" and ?m1 = "gct_Value (snd (ct_Value ct))"
  from assms have V: "valid_Matrix T ?m0" "valid_Matrix T ?m1"
    by (simp_all add: valid_Ciphertext_def)
  from assms have "remaining r = Matrix_bytes T ?m0 @ (Matrix_bytes T ?m1 @ rest)"
    by (simp add: Ciphertext_bytes_def)
  from Matrix_ReadFrom_bytes [OF V(1) this]
  have R0: "Matrix_ReadFrom T r = (length (Matrix_bytes T ?m0), Inr ?m0, Reader (Matrix_bytes T ?m1 @ rest))" .
  have "remaining (Reader (Matrix_bytes T ?m1 @ rest)) = Matrix_bytes T ?m1 @ rest" by simp
  from Matrix_ReadFrom_bytes [OF V(2) this]
  have R1: "Matrix_ReadFrom T (Reader (Matrix_bytes T ?m1 @ rest)) =
              (length (Matrix_bytes T ?m1), Inr ?m1, Reader rest)" .
  have "ct = \<lparr>ct_Value = (\<lparr>gct_Value = ?m0\<rparr>, \<lparr>gct_Value = ?m1\<rparr>)\<rparr>"
    by (cases ct, cases "fst (ct_Value ct)", cases "snd (ct_Value ct)") auto
  then show ?thesis
    using assms(1) R0 R1
    by (subst Ciphertext_ReadFrom.simps)
      (simp add: GadgetCiphertext_ReadFrom_def Ciphertext_bytes_def)
qed

lemma Ciphertext_ReadFrom_bytes:
  assumes "valid_Ciphertext T ct" and "remaining r = Ciphertext_bytes T ct @ rest"
  shows "Ciphertext_ReadFrom T r = (length (Ciphertext_bytes T ct), Inr ct, Reader rest)"
proof (cases r)
  case (Source bs)
  have "Ciphertext_ReadFrom T (Reader bs) = (length (Ciphertext_bytes T ct), Inr ct, Reader rest)"
    using assms Source by (intro Ciphertext_ReadFrom_buffered_bytes) auto
  with Source show ?thesis
    by (subst Ciphertext_ReadFrom.simps) (simp add: bufio_NewReader_def)
next
  case (Reader bs)
  show ?thesis
    using assms Reader by (intro Ciphertext_ReadFrom_buffered_bytes) auto
qed

subsection \<open>Round trip\<close>

lemma Matrix_Equal_refl:
  assumes "supports_Equal T" and "\<forall>v \<in> set m. \<forall>x \<in> set v. equatable_ok T x"
  shows "Matrix_Equal T m m = Inr True"
  using Equal_rows_refl [OF assms, of "[]"] assms(1)
  by (auto simp: Matrix_Equal_def supports_Equal_def split: option.splits)

text \<open>
  Claim C1. Reading back the exact bytes that a successful \<^verbatim>\<open>WriteTo\<close> has produced
  (what the writer holds more than before) gives a value equal to the one written:
  \<^item> for a valid matrix over an element type that supports \<^verbatim>\<open>Equal\<close>, \<^verbatim>\<open>ReadFrom\<close> returns
    a matrix on which \<^verbatim>\<open>Equal\<close> with the original returns true; the matrix with no rows is
    a valid matrix;
  \<^item> for a secret key whose ring element keeps the engine's round-trip contract,
    \<^verbatim>\<open>ReadFrom\<close> into any receiver leaves a key that \<^verbatim>\<open>Equal\<close> finds equal to the original;
  \<^item> for an RGSW ciphertext with valid halves, \<^verbatim>\<open>ReadFrom\<close> returns the same ciphertext
    (the source has no \<^verbatim>\<open>Equal\<close> for it: the two values are the same).
\<close>

theorem codec_round_trip:
  "(valid_Matrix T m \<and> supports_Equal T \<and> (\<forall>v \<in> set m. \<forall>x \<in> set v. equatable_ok T x)
      \<and> Matrix_WriteTo T m w = (n, None, w')
      \<and> remaining r = drop (length (stream w)) (stream w')
     \<longrightarrow> (\<exists>m'. Matrix_ReadFrom T r = (n, Inr m', Reader []) \<and> Matrix_Equal T m' m = Inr True))
   \<and> (engine_round_trip E (sk_Value sk) \<and> SecretKey_WriteTo E sk w1 = (n1, None, w1')
      \<and> remaining r1 = drop (length (stream w1)) (stream w1')
     \<longrightarrow> (\<exists>sk' r1'. SecretKey_ReadFrom E recv r1 = (n1, None, sk', r1') \<and> SecretKey_Equal sk' sk))
   \<and> (valid_Ciphertext Tc ct \<and> Ciphertext_WriteTo Tc ct w2 = (n2, None, w2')
      \<and> remaining r2 = drop (length (stream w2)) (stream w2')
     \<longrightarrow> Ciphertext_ReadFrom Tc r2 = (n2, Inr ct, Reader []))"
proof (intro conjI impI)
  assume A: "valid_Matrix T m \<and> supports_Equal T \<and> (\<forall>v \<in> set m. \<forall>x \<in> set v. equatable_ok T x)
      \<and> Matrix_WriteTo T m w = (n, None, w')
      \<and> remaining r = drop (length (stream w)) (stream w')"
  then have W: "Matrix_WriteTo T m w = (n, None, w')" by simp
  from Matrix_WriteTo_None [OF W] A have R: "remaining r = Matrix_bytes T m @ []"
    and N: "n = length (Matrix_bytes T m)" by simp_all
  from A have V: "valid_Matrix T m" by simp
  from Matrix_ReadFrom_bytes [OF V R] N
  have "Matrix_ReadFrom T r = (n, Inr m, Reader [])" by simp
  moreover from A have "Matrix_Equal T m m = Inr True"
    by (intro Matrix_Equal_refl) auto
  ultimately show "\<exists>m'. Matrix_ReadFrom T r = (n, Inr m', Reader []) \<and> Matrix_Equal T m' m = Inr True"
    by blast
next
  assume A: "engine_round_trip E (sk_Value sk) \<and> SecretKey_WriteTo E sk w1 = (n1, None, w1')
      \<and> remaining r1 = drop (length (stream w1)) (stream w1')"
  then have "\<exists>r'. poly_ReadFrom E (sk_Value recv) r1 = (n1, None, sk_Value sk, r')"
    unfolding engine_round_trip_def SecretKey_WriteTo_def by blast
  then obtain r' where "poly_ReadFrom E (sk_Value recv) r1 = (n1, None, sk_Value sk, r')" ..
  then have "SecretKey_ReadFrom E recv r1 = (n1, None, recv\<lparr>sk_Value := sk_Value sk\<rparr>, r')
      \<and> SecretKey_Equal (recv\<lparr>sk_Value := sk_Value sk\<rparr>) sk"
    by (simp add: SecretKey_ReadFrom_def SecretKey_Equal_def)
  then show "\<exists>sk' r1'. SecretKey_ReadFrom E recv r1 = (n1, None, sk', r1') \<and> SecretKey_Equal sk' sk"
    by blast
next
  assume A: "valid_Ciphertext Tc ct \<and> Ciphertext_WriteTo Tc ct w2 = (n2, None, w2')
      \<and> remaining r2 = drop (length (stream w2)) (stream w2')"
  then have W: "Ciphertext_WriteTo Tc ct w2 = (n2, None, w2')" by simp
  from Ciphertext_WriteTo_None [OF W] A have R: "remaining r2 = Ciphertext_bytes Tc ct @ []"
    and N: "n2 = length (Ciphertext_bytes Tc ct)" by simp_all
  from A have V: "valid_Ciphertext Tc ct" by simp
  from Ciphertext_ReadFrom_bytes [OF V R] N
  show "Ciphertext_ReadFrom Tc r2 = (n2, Inr ct, Reader [])" by simp
qed

text \<open>Values of the examples.\<close>

lemma supports_Equal_T_uint64: "supports_Equal T_uint64"
  by (simp add: supports_Equal_def kind_T_uint64)

lemma equatable_ok_T_uint64: "equatable_ok T_uint64 x"
  by (simp add: equatable_ok_def kind_T_uint64)

lemma valid_ct_example: "valid_Ciphertext T_uint64 ct_example"
  by (simp add: valid_Ciphertext_def ct_example_def valid_Matrix_def valid_Vector_def
      codec_ok_T_uint64)

lemma Matrix_WriteTo_empty_example:
  "Matrix_WriteTo T_uint64 [] (channel 100) =
     (8, None, Bufio 4096 [] (Sink \<lparr>accepted = [0, 0, 0, 0, 0, 0, 0, 0], quota = 92\<rparr>))"
  by (simp add: Matrix_WriteTo.simps channel_def bufio_NewWriter_def WriteAsUint64_def
      put_le_8_small)

lemma Ciphertext_WriteTo_example:
  "Ciphertext_WriteTo T_uint64 ct_example (Buffer 0 []) =
     (72, None, Buffer 72
       [2, 0, 0, 0, 0, 0, 0, 0, 1, 0, 0, 0, 0, 0, 0, 0, 1, 0, 0, 0, 0, 0, 0, 0,
        2, 0, 0, 0, 0, 0, 0, 0, 2, 0, 0, 0, 0, 0, 0, 0, 3, 0, 0, 0, 0, 0, 0, 0,
        1, 0, 0, 0, 0, 0, 0, 0, 1, 0, 0, 0, 0, 0, 0, 0, 4, 0, 0, 0, 0, 0, 0, 0])"
  by (simp add: Ciphertext_WriteTo_buffered ct_example_def Matrix_WriteTo.simps WriteAsUint64_def
      Vector_WriteTo_def put_T_uint64 put_le_8_small)

lemma SecretKey_WriteTo_example:
  "SecretKey_WriteTo E_word \<lparr>sk_Value = 5\<rparr> (Buffer 0 []) = (8, None, Buffer 8 [5, 0, 0, 0, 0, 0, 0, 0])"
  by (simp add: SecretKey_WriteTo_def E_word_def put_le_8_small)

text \<open>
  The theorem at the \<^verbatim>\<open>uint64\<close> matrix \<open>[[1], [2, 3]]\<close>, at the matrix with no rows, at a
  secret key over \<open>E_word\<close> and at \<open>ct_example\<close>.
\<close>

theorem codec_round_trip_witness:
  "(\<exists>m'. Matrix_ReadFrom T_uint64
            (Source [2, 0, 0, 0, 0, 0, 0, 0, 1, 0, 0, 0, 0, 0, 0, 0, 1, 0, 0, 0, 0, 0, 0, 0,
                     2, 0, 0, 0, 0, 0, 0, 0, 2, 0, 0, 0, 0, 0, 0, 0, 3, 0, 0, 0, 0, 0, 0, 0]) =
            (48, Inr m', Reader [])
         \<and> Matrix_Equal T_uint64 m' [[1], [2, 3]] = Inr True)
   \<and> (\<exists>m'. Matrix_ReadFrom T_uint64 (Source [0, 0, 0, 0, 0, 0, 0, 0]) = (8, Inr m', Reader [])
         \<and> Matrix_Equal T_uint64 m' [] = Inr True)
   \<and> (\<exists>sk' r'. SecretKey_ReadFrom E_word \<lparr>sk_Value = 0\<rparr> (Reader [5, 0, 0, 0, 0, 0, 0, 0]) =
            (8, None, sk', r')
         \<and> SecretKey_Equal sk' \<lparr>sk_Value = 5\<rparr>)
   \<and> Ciphertext_ReadFrom T_uint64
        (Reader [2, 0, 0, 0, 0, 0, 0, 0, 1, 0, 0, 0, 0, 0, 0, 0, 1, 0, 0, 0, 0, 0, 0, 0,
                 2, 0, 0, 0, 0, 0, 0, 0, 2, 0, 0, 0, 0, 0, 0, 0, 3, 0, 0, 0, 0, 0, 0, 0,
                 1, 0, 0, 0, 0, 0, 0, 0, 1, 0, 0, 0, 0, 0, 0, 0, 4, 0, 0, 0, 0, 0, 0, 0]) =
       (72, Inr ct_example, Reader [])"
proof -
  let ?bs = "[2, 0, 0, 0, 0, 0, 0, 0, 1, 0, 0, 0, 0, 0, 0, 0, 1, 0, 0, 0, 0, 0, 0, 0,
              2, 0, 0, 0, 0, 0, 0, 0, 2, 0, 0, 0, 0, 0, 0, 0, 3, 0, 0, 0, 0, 0, 0, 0] :: byte list"
  let ?cs = "?bs @ [1, 0, 0, 0, 0, 0, 0, 0, 1, 0, 0, 0, 0, 0, 0, 0, 4, 0, 0, 0, 0, 0, 0, 0]"
  have M: "\<exists>m'. Matrix_ReadFrom T_uint64 (Source ?bs) = (48, Inr m', Reader [])
         \<and> Matrix_Equal T_uint64 m' [[1], [2, 3]] = Inr True"
    using codec_round_trip [of T_uint64 "[[1], [2, 3]]" "channel 100" 48
        "Bufio 4096 [] (Sink \<lparr>accepted = ?bs, quota = 52\<rparr>)" "Source ?bs"
        E_word "\<lparr>sk_Value = 5\<rparr>" "Buffer 0 []" 8 "Buffer 8 [5, 0, 0, 0, 0, 0, 0, 0]"
        "Reader [5, 0, 0, 0, 0, 0, 0, 0]" "\<lparr>sk_Value = 0\<rparr>"
        T_uint64 ct_example "Buffer 0 []" 72 "Buffer 72 ?cs" "Reader ?cs"]
      valid_uint64_example supports_Equal_T_uint64 equatable_ok_T_uint64
      Matrix_WriteTo_uint64_example
    by (simp add: channel_def)
  have S: "\<exists>sk' r'. SecretKey_ReadFrom E_word \<lparr>sk_Value = 0\<rparr> (Reader [5, 0, 0, 0, 0, 0, 0, 0]) =
            (8, None, sk', r') \<and> SecretKey_Equal sk' \<lparr>sk_Value = 5\<rparr>"
    using codec_round_trip [of T_uint64 "[[1], [2, 3]]" "channel 100" 48
        "Bufio 4096 [] (Sink \<lparr>accepted = ?bs, quota = 52\<rparr>)" "Source ?bs"
        E_word "\<lparr>sk_Value = 5\<rparr>" "Buffer 0 []" 8 "Buffer 8 [5, 0, 0, 0, 0, 0, 0, 0]"
        "Reader [5, 0, 0, 0, 0, 0, 0, 0]" "\<lparr>sk_Value = 0\<rparr>"
        T_uint64 ct_example "Buffer 0 []" 72 "Buffer 72 ?cs" "Reader ?cs"]
      engine_round_trip_E_word [of 5] SecretKey_WriteTo_example
    by simp
  have C: "Ciphertext_ReadFrom T_uint64 (Reader ?cs) = (72, Inr ct_example, Reader [])"
    using codec_round_trip [of T_uint64 "[[1], [2, 3]]" "channel 100" 48
        "Bufio 4096 [] (Sink \<lparr>accepted = ?bs, quota = 52\<rparr>)" "Source ?bs"
        E_word "\<lparr>sk_Value = 5\<rparr>" "Buffer 0 []" 8 "Buffer 8 [5, 0, 0, 0, 0, 0, 0, 0]"
        "Reader [5, 0, 0, 0, 0, 0, 0, 0]" "\<lparr>sk_Value = 0\<rparr>"
        T_uint64 ct_example "Buffer 0 []" 72 "Buffer 72 ?cs" "Reader ?cs"]
      valid_ct_example Ciphertext_WriteTo_example
    by simp
  have Em: "\<exists>m'. Matrix_ReadFrom T_uint64 (Source [0, 0, 0, 0, 0, 0, 0, 0]) = (8, Inr m', Reader [])
         \<and> Matrix_Equal T_uint64 m' [] = Inr True"
    using codec_round_trip [of T_uint64 "[]" "channel 100" 8
        "Bufio 4096 [] (Sink \<lparr>accepted = [0, 0, 0, 0, 0, 0, 0, 0], quota = 92\<rparr>)"
        "Source [0, 0, 0, 0, 0, 0, 0, 0]"
        E_word "\<lparr>sk_Value = 5\<rparr>" "Buffer 0 []" 8 "Buffer 8 [5, 0, 0, 0, 0, 0, 0, 0]"
        "Reader [5, 0, 0, 0, 0, 0, 0, 0]" "\<lparr>sk_Value = 0\<rparr>"
        T_uint64 ct_example "Buffer 0 []" 72 "Buffer 72 ?cs" "Reader ?cs"]
      supports_Equal_T_uint64 Matrix_WriteTo_empty_example
    by (simp add: channel_def valid_Matrix_def)
  from M Em S C show ?thesis by simp
qed

subsection \<open>Writing to an in-memory buffer\<close>

lemma Vector_WriteTo_elems_Buffer:
  "\<forall>x \<in> set xs. writable T x \<Longrightarrow> length b \<le> c \<Longrightarrow>
     Vector_WriteTo_elems T xs n (Buffer c b) =
       (n + length (concat (map (elem_bytes T) xs)), None,
        Buffer (max c (length (b @ concat (map (elem_bytes T) xs)))) (b @ concat (map (elem_bytes T) xs)))"
proof (induction xs arbitrary: n c b)
  case Nil
  then show ?case by simp
next
  case (Cons x xs)
  from Cons.prems obtain bs where P: "put T x = Inr bs"
    by (auto simp: writable_def split: sum.splits)
  then have E: "elem_bytes T x = bs" by (simp add: elem_bytes_def)
  have "Vector_WriteTo_elems T xs (n + length bs) (Buffer (max c (length (b @ bs))) (b @ bs)) =
          (n + length bs + length (concat (map (elem_bytes T) xs)), None,
           Buffer (max (max c (length (b @ bs))) (length ((b @ bs) @ concat (map (elem_bytes T) xs))))
             ((b @ bs) @ concat (map (elem_bytes T) xs)))"
    using Cons.prems by (intro Cons.IH) auto
  with P E show ?case by (simp add: max_def)
qed

lemma Vector_WriteTo_Buffer:
  "\<forall>x \<in> set v. writable T x \<Longrightarrow> length b \<le> c \<Longrightarrow>
     Vector_WriteTo T v (Buffer c b) =
       (length (Vector_bytes T v), None,
        Buffer (max c (length (b @ Vector_bytes T v))) (b @ Vector_bytes T v))"
  using Vector_WriteTo_elems_Buffer [where xs = v and T = T and n = 8
      and c = "max c (length (b @ put_le 8 (length v)))" and b = "b @ put_le 8 (length v)"]
  by (simp add: Vector_WriteTo_def WriteAsUint64_def Vector_bytes_def length_put_le max_def)

lemma WriteTo_rows_Buffer:
  "\<forall>v \<in> set m. \<forall>x \<in> set v. writable T x \<Longrightarrow> length b \<le> c \<Longrightarrow>
     WriteTo_rows T m n (Buffer c b) =
       (n + length (concat (map (Vector_bytes T) m)), None,
        Buffer (max c (length (b @ concat (map (Vector_bytes T) m)))) (b @ concat (map (Vector_bytes T) m)))"
proof (induction m arbitrary: n c b)
  case Nil
  then show ?case by simp
next
  case (Cons v vs)
  let ?bs = "Vector_bytes T v"
  have V: "Vector_WriteTo T v (Buffer c b) =
       (length ?bs, None, Buffer (max c (length (b @ ?bs))) (b @ ?bs))"
    using Cons.prems by (intro Vector_WriteTo_Buffer) auto
  have "WriteTo_rows T vs (n + length ?bs) (Buffer (max c (length (b @ ?bs))) (b @ ?bs)) =
          (n + length ?bs + length (concat (map (Vector_bytes T) vs)), None,
           Buffer (max (max c (length (b @ ?bs))) (length ((b @ ?bs) @ concat (map (Vector_bytes T) vs))))
             ((b @ ?bs) @ concat (map (Vector_bytes T) vs)))"
    using Cons.prems by (intro Cons.IH) auto
  with V show ?case by (simp add: max_def)
qed

lemma Matrix_WriteTo_Buffer:
  "\<forall>v \<in> set m. \<forall>x \<in> set v. writable T x \<Longrightarrow> length b \<le> c \<Longrightarrow>
     Matrix_WriteTo T m (Buffer c b) =
       (length (Matrix_bytes T m), None,
        Buffer (max c (length (b @ Matrix_bytes T m))) (b @ Matrix_bytes T m))"
  using WriteTo_rows_Buffer [where m = m and T = T and n = 8
      and c = "max c (length (b @ put_le 8 (length m)))" and b = "b @ put_le 8 (length m)"]
  by (simp add: Matrix_WriteTo.simps WriteAsUint64_def Matrix_bytes_def length_put_le max_def)

lemma Matrix_ReadFrom_remaining:
  "Matrix_ReadFrom T r = Matrix_ReadFrom T (Reader (remaining r))"
  by (cases r) (simp_all add: Matrix_ReadFrom.simps [of T "Source _"] bufio_NewReader_def)

lemma Ciphertext_ReadFrom_remaining:
  "Ciphertext_ReadFrom T r = Ciphertext_ReadFrom T (Reader (remaining r))"
  by (cases r) (simp_all add: Ciphertext_ReadFrom.simps [of T "Source _"] bufio_NewReader_def)

lemma valid_Matrix_writable:
  "valid_Matrix T m \<Longrightarrow> \<forall>v \<in> set m. \<forall>x \<in> set v. writable T x"
  by (auto simp: valid_Matrix_def valid_Vector_def codec_ok_def)

lemma valid_Matrix_length:
  "valid_Matrix T m \<Longrightarrow> length (Matrix_bytes T m) = Matrix_BinarySize T m"
  by (intro length_Matrix_bytes) (auto simp: valid_Matrix_def valid_Vector_def)

lemma Ciphertext_WriteTo_Buffer:
  assumes "\<forall>v \<in> set (gct_Value (fst (ct_Value ct))). \<forall>x \<in> set v. writable T x"
    and "\<forall>v \<in> set (gct_Value (snd (ct_Value ct))). \<forall>x \<in> set v. writable T x"
    and "length b \<le> c"
  shows "Ciphertext_WriteTo T ct (Buffer c b) =
       (length (Ciphertext_bytes T ct), None,
        Buffer (max c (length (b @ Ciphertext_bytes T ct))) (b @ Ciphertext_bytes T ct))"
  using assms(3)
  by (simp add: Ciphertext_WriteTo_buffered Matrix_WriteTo_Buffer [OF assms(1)]
      Matrix_WriteTo_Buffer [OF assms(2)] Ciphertext_bytes_def max_def)

lemma Ciphertext_WriteTo_writable:
  assumes "Ciphertext_WriteTo T ct w = (n, None, w')"
  shows "(\<forall>v \<in> set (gct_Value (fst (ct_Value ct))). \<forall>x \<in> set v. writable T x) \<and>
         (\<forall>v \<in> set (gct_Value (snd (ct_Value ct))). \<forall>x \<in> set v. writable T x)"
proof -
  define u where "u = (if is_buffer_Writer w then w else bufio_NewWriter w)"
  have B: "is_buffer_Writer u" by (simp add: u_def bufio_NewWriter_def)
  from assms have A: "Ciphertext_WriteTo T ct u = (n, None, w')"
    by (cases "is_buffer_Writer w") (simp_all add: u_def Ciphertext_WriteTo_wrap)
  obtain n0 e0 w0 where W0: "Matrix_WriteTo T (gct_Value (fst (ct_Value ct))) u = (n0, e0, w0)"
    by (cases "Matrix_WriteTo T (gct_Value (fst (ct_Value ct))) u") auto
  show ?thesis
  proof (cases e0)
    case None
    obtain n1 e1 w1 where W1: "Matrix_WriteTo T (gct_Value (snd (ct_Value ct))) w0 = (n1, e1, w1)"
      by (cases "Matrix_WriteTo T (gct_Value (snd (ct_Value ct))) w0") auto
    from A W0 W1 None have "e1 = None"
      by (simp add: Ciphertext_WriteTo_buffered [OF B])
    with Matrix_WriteTo_None [OF W0 [unfolded None]] Matrix_WriteTo_None [of T _ w0 n1 w1] W1
    show ?thesis by simp
  next
    case (Some err)
    with A W0 show ?thesis by (simp add: Ciphertext_WriteTo_buffered [OF B])
  qed
qed

subsection \<open>MarshalBinary and UnmarshalBinary\<close>

lemma engine_slices_agree_E_word: "engine_slices_agree E_word p"
  unfolding engine_slices_agree_def
proof (intro allI impI)
  fix data :: "byte list"
  assume L: "length data = poly_BinarySize E_word p"
  have W: "\<forall>w n w'. poly_WriteTo E_word p w = (n, None, w') \<longrightarrow>
             drop (length (stream w)) (stream w') = put_le 8 (unat p)"
  proof (intro allI impI)
    fix w n w'
    assume "poly_WriteTo E_word p w = (n, None, w')"
    then have "Write (put_le 8 (unat p)) w = (n, None, w')" by (simp add: E_word_def)
    from Write_None [OF this] show "drop (length (stream w)) (stream w') = put_le 8 (unat p)"
      by simp
  qed
  from L have "poly_Read E_word p data = (length (put_le 8 (unat p)), None, put_le 8 (unat p))"
    by (simp add: E_word_def length_put_le)
  with W show "\<exists>enc. poly_Read E_word p data = (length enc, None, enc)
      \<and> length enc = poly_BinarySize E_word p
      \<and> (\<forall>w n w'. poly_WriteTo E_word p w = (n, None, w') \<longrightarrow>
            drop (length (stream w)) (stream w') = enc)"
    by (intro exI [of _ "put_le 8 (unat p)"]) (simp add: length_put_le E_word_def)
qed

lemma engine_decoders_agree_E_word: "engine_decoders_agree E_word"
  by (auto simp: engine_decoders_agree_def E_word_def split: if_splits)

text \<open>
  Claim C7. For a matrix and for an RGSW ciphertext, \<^verbatim>\<open>MarshalBinary\<close> writes into a buffer
  allocated with exactly \<^verbatim>\<open>BinarySize()\<close> bytes: for a valid value the buffer is filled
  with exactly that many bytes and never grows; whenever \<^verbatim>\<open>WriteTo\<close> succeeds on any writer,
  \<^verbatim>\<open>MarshalBinary\<close> returns the very bytes that \<^verbatim>\<open>WriteTo\<close> produced there, with no error;
  and \<^verbatim>\<open>UnmarshalBinary\<close> on the bytes a reader has left returns what \<^verbatim>\<open>ReadFrom\<close> returns
  on that reader. For a secret key, \<^verbatim>\<open>MarshalBinary\<close> allocates \<^verbatim>\<open>BinarySize()\<close> bytes and
  goes through the engine's \<^verbatim>\<open>Read\<close>, and \<^verbatim>\<open>UnmarshalBinary\<close> through its \<^verbatim>\<open>Write\<close>: they
  agree with \<^verbatim>\<open>WriteTo\<close> and \<^verbatim>\<open>ReadFrom\<close> when the engine's two codecs agree.
\<close>

theorem Marshal_is_the_stream_codec:
  "(valid_Matrix T m \<longrightarrow>
      Matrix_WriteTo T m (NewBufferSize (Matrix_BinarySize T m)) =
        (Matrix_BinarySize T m, None, Buffer (Matrix_BinarySize T m) (Matrix_bytes T m))
      \<and> length (Matrix_bytes T m) = Matrix_BinarySize T m
      \<and> Matrix_MarshalBinary T m = (Matrix_bytes T m, None))
   \<and> (Matrix_WriteTo T m w = (n, None, w') \<longrightarrow>
      Matrix_MarshalBinary T m = (drop (length (stream w)) (stream w'), None))
   \<and> (Matrix_ReadFrom T r = (k, res, r') \<longrightarrow> Matrix_UnmarshalBinary T (remaining r) = res)
   \<and> (valid_Ciphertext Tc ct \<longrightarrow>
      Ciphertext_WriteTo Tc ct (NewBufferSize (Ciphertext_BinarySize Tc ct)) =
        (Ciphertext_BinarySize Tc ct, None, Buffer (Ciphertext_BinarySize Tc ct) (Ciphertext_bytes Tc ct))
      \<and> length (Ciphertext_bytes Tc ct) = Ciphertext_BinarySize Tc ct
      \<and> Ciphertext_MarshalBinary Tc ct = (Ciphertext_bytes Tc ct, None))
   \<and> (Ciphertext_WriteTo Tc ct w2 = (n2, None, w2') \<longrightarrow>
      Ciphertext_MarshalBinary Tc ct = (drop (length (stream w2)) (stream w2'), None))
   \<and> (Ciphertext_ReadFrom Tc r2 = (k2, res2, r2') \<longrightarrow>
      Ciphertext_UnmarshalBinary Tc (remaining r2) = res2)
   \<and> (engine_slices_agree E (sk_Value sk) \<longrightarrow>
      (\<exists>p. SecretKey_MarshalBinary E sk = (p, None) \<and> length p = SecretKey_BinarySize E sk
         \<and> (\<forall>w3 n3 w3'. SecretKey_WriteTo E sk w3 = (n3, None, w3') \<longrightarrow>
               drop (length (stream w3)) (stream w3') = p)))
   \<and> (engine_decoders_agree E \<and> SecretKey_ReadFrom E recv r4 = (n4, err, sk', r4') \<longrightarrow>
      SecretKey_UnmarshalBinary E recv (remaining r4) = (err, sk'))"
proof (intro conjI impI)
  assume V: "valid_Matrix T m"
  note L = valid_Matrix_length [OF V]
  from Matrix_WriteTo_Buffer [OF valid_Matrix_writable [OF V], where b = "[]" and c = "Matrix_BinarySize T m"] L
  show B: "Matrix_WriteTo T m (NewBufferSize (Matrix_BinarySize T m)) =
        (Matrix_BinarySize T m, None, Buffer (Matrix_BinarySize T m) (Matrix_bytes T m))"
    by (simp add: NewBufferSize_def)
  show "length (Matrix_bytes T m) = Matrix_BinarySize T m" by (rule L)
  from B show "Matrix_MarshalBinary T m = (Matrix_bytes T m, None)"
    by (simp add: Matrix_MarshalBinary_def)
next
  assume W: "Matrix_WriteTo T m w = (n, None, w')"
  from Matrix_WriteTo_None [OF W]
  have A: "\<forall>v \<in> set m. \<forall>x \<in> set v. writable T x" and S: "stream w' = stream w @ Matrix_bytes T m"
    by simp_all
  from Matrix_WriteTo_Buffer [OF A, where b = "[]" and c = "Matrix_BinarySize T m"] S
  show "Matrix_MarshalBinary T m = (drop (length (stream w)) (stream w'), None)"
    by (simp add: Matrix_MarshalBinary_def NewBufferSize_def)
next
  assume "Matrix_ReadFrom T r = (k, res, r')"
  then show "Matrix_UnmarshalBinary T (remaining r) = res"
    using Matrix_ReadFrom_remaining [of T r]
    by (simp add: Matrix_UnmarshalBinary_def NewBuffer_def)
next
  assume V: "valid_Ciphertext Tc ct"
  then have V0: "valid_Matrix Tc (gct_Value (fst (ct_Value ct)))"
    and V1: "valid_Matrix Tc (gct_Value (snd (ct_Value ct)))"
    by (simp_all add: valid_Ciphertext_def)
  have L: "length (Ciphertext_bytes Tc ct) = Ciphertext_BinarySize Tc ct"
    by (simp add: Ciphertext_bytes_def Ciphertext_BinarySize_def GadgetCiphertext_BinarySize_def
        valid_Matrix_length [OF V0] valid_Matrix_length [OF V1])
  from Ciphertext_WriteTo_Buffer [OF valid_Matrix_writable [OF V0] valid_Matrix_writable [OF V1],
      where b = "[]" and c = "Ciphertext_BinarySize Tc ct"] L
  show B: "Ciphertext_WriteTo Tc ct (NewBufferSize (Ciphertext_BinarySize Tc ct)) =
        (Ciphertext_BinarySize Tc ct, None, Buffer (Ciphertext_BinarySize Tc ct) (Ciphertext_bytes Tc ct))"
    by (simp add: NewBufferSize_def)
  show "length (Ciphertext_bytes Tc ct) = Ciphertext_BinarySize Tc ct" by (rule L)
  from B show "Ciphertext_MarshalBinary Tc ct = (Ciphertext_bytes Tc ct, None)"
    by (simp add: Ciphertext_MarshalBinary_def)
next
  assume W: "Ciphertext_WriteTo Tc ct w2 = (n2, None, w2')"
  from Ciphertext_WriteTo_writable [OF W]
  have A0: "\<forall>v \<in> set (gct_Value (fst (ct_Value ct))). \<forall>x \<in> set v. writable Tc x"
    and A1: "\<forall>v \<in> set (gct_Value (snd (ct_Value ct))). \<forall>x \<in> set v. writable Tc x"
    by simp_all
  from Ciphertext_WriteTo_None [OF W] have S: "stream w2' = stream w2 @ Ciphertext_bytes Tc ct"
    by simp
  from Ciphertext_WriteTo_Buffer [OF A0 A1, where b = "[]" and c = "Ciphertext_BinarySize Tc ct"] S
  show "Ciphertext_MarshalBinary Tc ct = (drop (length (stream w2)) (stream w2'), None)"
    by (simp add: Ciphertext_MarshalBinary_def NewBufferSize_def)
next
  assume "Ciphertext_ReadFrom Tc r2 = (k2, res2, r2')"
  then show "Ciphertext_UnmarshalBinary Tc (remaining r2) = res2"
    using Ciphertext_ReadFrom_remaining [of Tc r2]
    by (simp add: Ciphertext_UnmarshalBinary_def NewBuffer_def)
next
  assume A: "engine_slices_agree E (sk_Value sk)"
  have "length (replicate (SecretKey_BinarySize E sk) (0::byte)) = poly_BinarySize E (sk_Value sk)"
    by (simp add: SecretKey_BinarySize_def)
  with A obtain enc where
    R: "poly_Read E (sk_Value sk) (replicate (SecretKey_BinarySize E sk) 0) = (length enc, None, enc)"
    and L: "length enc = poly_BinarySize E (sk_Value sk)"
    and W: "\<forall>w n w'. poly_WriteTo E (sk_Value sk) w = (n, None, w') \<longrightarrow>
              drop (length (stream w)) (stream w') = enc"
    unfolding engine_slices_agree_def by blast
  from R L W show "\<exists>p. SecretKey_MarshalBinary E sk = (p, None) \<and> length p = SecretKey_BinarySize E sk
         \<and> (\<forall>w3 n3 w3'. SecretKey_WriteTo E sk w3 = (n3, None, w3') \<longrightarrow>
               drop (length (stream w3)) (stream w3') = p)"
    by (intro exI [of _ enc])
      (simp add: SecretKey_MarshalBinary_def SecretKey_Read_def SecretKey_BinarySize_def
        SecretKey_WriteTo_def)
next
  assume A: "engine_decoders_agree E \<and> SecretKey_ReadFrom E recv r4 = (n4, err, sk', r4')"
  obtain n e p r' where P: "poly_ReadFrom E (sk_Value recv) r4 = (n, e, p, r')"
    by (cases "poly_ReadFrom E (sk_Value recv) r4") auto
  with A obtain ptr where "poly_Write E (sk_Value recv) (remaining r4) = (ptr, e, p)"
    unfolding engine_decoders_agree_def by blast
  with A P show "SecretKey_UnmarshalBinary E recv (remaining r4) = (err, sk')"
    by (auto simp: SecretKey_UnmarshalBinary_def SecretKey_Write_def SecretKey_ReadFrom_def)
qed

text \<open>Values of the examples.\<close>

lemma Matrix_ReadFrom_uint64_example:
  "Matrix_ReadFrom T_uint64 (Source (Matrix_bytes T_uint64 [[1], [2, 3]])) =
     (48, Inr [[1], [2, 3]], Reader [])"
  using Matrix_ReadFrom_bytes [OF valid_uint64_example,
      of "Source (Matrix_bytes T_uint64 [[1], [2, 3]])" "[]"]
  by (simp add: Matrix_bytes_uint64_example)

lemma Ciphertext_ReadFrom_example:
  "Ciphertext_ReadFrom T_uint64 (Source (Ciphertext_bytes T_uint64 ct_example)) =
     (72, Inr ct_example, Reader [])"
proof -
  have "length (Ciphertext_bytes T_uint64 ct_example) = 72"
    by (simp add: Ciphertext_bytes_def ct_example_def Matrix_bytes_def Vector_bytes_def
        length_put_le elem_bytes_T_uint64)
  with Ciphertext_ReadFrom_bytes [OF valid_ct_example,
      of "Source (Ciphertext_bytes T_uint64 ct_example)" "[]"]
  show ?thesis by simp
qed

lemma SecretKey_ReadFrom_example:
  "SecretKey_ReadFrom E_word \<lparr>sk_Value = 0\<rparr> (Reader [5, 0, 0, 0, 0, 0, 0, 0]) =
     (8, None, \<lparr>sk_Value = 5\<rparr>, Reader [])"
  by (simp add: SecretKey_ReadFrom_def E_word_def)

text \<open>
  The theorem at the \<^verbatim>\<open>uint64\<close> matrix \<open>[[1], [2, 3]]\<close>, at \<open>ct_example\<close> and at a secret key
  over \<open>E_word\<close>.
\<close>

theorem Marshal_is_the_stream_codec_witness:
  "Matrix_MarshalBinary T_uint64 [[1], [2, 3]] = (Matrix_bytes T_uint64 [[1], [2, 3]], None)
   \<and> length (Matrix_bytes T_uint64 [[1], [2, 3]]) = Matrix_BinarySize T_uint64 [[1], [2, 3]]
   \<and> Matrix_MarshalBinary T_uint64 [[1], [2, 3]] =
       ([2, 0, 0, 0, 0, 0, 0, 0, 1, 0, 0, 0, 0, 0, 0, 0, 1, 0, 0, 0, 0, 0, 0, 0,
         2, 0, 0, 0, 0, 0, 0, 0, 2, 0, 0, 0, 0, 0, 0, 0, 3, 0, 0, 0, 0, 0, 0, 0], None)
   \<and> Matrix_UnmarshalBinary T_uint64 (Matrix_bytes T_uint64 [[1], [2, 3]]) = Inr [[1], [2, 3]]
   \<and> Ciphertext_MarshalBinary T_uint64 ct_example = (Ciphertext_bytes T_uint64 ct_example, None)
   \<and> Ciphertext_UnmarshalBinary T_uint64 (Ciphertext_bytes T_uint64 ct_example) = Inr ct_example
   \<and> (\<exists>p. SecretKey_MarshalBinary E_word \<lparr>sk_Value = 5\<rparr> = (p, None)
         \<and> length p = SecretKey_BinarySize E_word \<lparr>sk_Value = 5\<rparr>)
   \<and> SecretKey_UnmarshalBinary E_word \<lparr>sk_Value = 0\<rparr> [5, 0, 0, 0, 0, 0, 0, 0] =
       (None, \<lparr>sk_Value = 5\<rparr>)"
proof -
  have CW: "Ciphertext_WriteTo T_uint64 ct_example (Buffer 0 []) =
      (length (Ciphertext_bytes T_uint64 ct_example), None,
       Buffer (length (Ciphertext_bytes T_uint64 ct_example)) (Ciphertext_bytes T_uint64 ct_example))"
  proof -
    from valid_ct_example
    have V0: "valid_Matrix T_uint64 (gct_Value (fst (ct_Value ct_example)))"
      and V1: "valid_Matrix T_uint64 (gct_Value (snd (ct_Value ct_example)))"
      by (simp_all add: valid_Ciphertext_def)
    from Ciphertext_WriteTo_Buffer [OF valid_Matrix_writable [OF V0] valid_Matrix_writable [OF V1],
        where b = "[]" and c = 0]
    show ?thesis by simp
  qed
  from Marshal_is_the_stream_codec [where T = T_uint64 and m = "[[1], [2, 3]]"
      and w = "channel 100" and n = 48
      and w' = "Bufio 4096 []
             (Sink \<lparr>accepted =
               [2, 0, 0, 0, 0, 0, 0, 0, 1, 0, 0, 0, 0, 0, 0, 0, 1, 0, 0, 0, 0, 0, 0, 0,
                2, 0, 0, 0, 0, 0, 0, 0, 2, 0, 0, 0, 0, 0, 0, 0, 3, 0, 0, 0, 0, 0, 0, 0],
               quota = 52\<rparr>)"
      and r = "Source (Matrix_bytes T_uint64 [[1], [2, 3]])" and k = 48
      and res = "Inr [[1], [2, 3]]" and r' = "Reader []"
      and Tc = T_uint64 and ct = ct_example
      and ?w2.0 = "Buffer 0 []" and ?n2.0 = "length (Ciphertext_bytes T_uint64 ct_example)"
      and w2' = "Buffer (length (Ciphertext_bytes T_uint64 ct_example)) (Ciphertext_bytes T_uint64 ct_example)"
      and ?r2.0 = "Source (Ciphertext_bytes T_uint64 ct_example)" and ?k2.0 = 72
      and ?res2.0 = "Inr ct_example" and r2' = "Reader []"
      and E = E_word and sk = "\<lparr>sk_Value = 5\<rparr>" and recv = "\<lparr>sk_Value = 0\<rparr>"
      and ?r4.0 = "Reader [5, 0, 0, 0, 0, 0, 0, 0]" and ?n4.0 = 8 and err = None
      and sk' = "\<lparr>sk_Value = 5\<rparr>" and r4' = "Reader []"]
    valid_uint64_example Matrix_WriteTo_uint64_example Matrix_ReadFrom_uint64_example
    valid_ct_example CW Ciphertext_ReadFrom_example
    engine_slices_agree_E_word [of 5] engine_decoders_agree_E_word SecretKey_ReadFrom_example
  show ?thesis by (auto simp: channel_def)
qed

subsection \<open>Wrapping and flushing\<close>

lemma Matrix_WriteTo_buffered:
  "is_buffer_Writer w \<Longrightarrow>
     Matrix_WriteTo T m w =
       (case WriteAsUint64 (length m) w of
          (inc, Some err, w') \<Rightarrow> (inc, Some (Errorf ''buffer.WriteAsUint64[int]'' err), w')
        | (inc, None, w') \<Rightarrow> WriteTo_rows T m inc w')"
  by (subst Matrix_WriteTo.simps) simp

lemma Matrix_WriteTo_buffered_shape:
  assumes "is_buffer_Writer w" and "Matrix_WriteTo T m w = (n, e, w')"
  shows "frame w' = frame w"
proof -
  obtain inc e1 w1 where W: "Write (put_le 8 (length m)) w = (inc, e1, w1)"
    by (cases "Write (put_le 8 (length m)) w") auto
  show ?thesis
  proof (cases e1)
    case None
    with assms W have "WriteTo_rows T m inc w1 = (n, e, w')"
      by (simp add: Matrix_WriteTo_buffered WriteAsUint64_def)
    from WriteTo_rows_shape [OF this] Write_shape [OF W] show ?thesis by simp
  next
    case (Some err)
    with assms W Write_shape [OF W] show ?thesis
      by (auto simp: Matrix_WriteTo_buffered WriteAsUint64_def)
  qed
qed

lemma Matrix_WriteTo_shape:
  "Matrix_WriteTo T m w = (n, e, w') \<Longrightarrow>
     frame w' = frame (if is_buffer_Writer w then w else bufio_NewWriter w)"
proof (cases "is_buffer_Writer w")
  case True
  assume "Matrix_WriteTo T m w = (n, e, w')"
  from Matrix_WriteTo_buffered_shape [OF True this] True show ?thesis by simp
next
  case False
  assume "Matrix_WriteTo T m w = (n, e, w')"
  with False have A: "Matrix_WriteTo T m (bufio_NewWriter w) = (n, e, w')"
    by (simp add: Matrix_WriteTo_wrap)
  have "is_buffer_Writer (bufio_NewWriter w)" by (simp add: bufio_NewWriter_def)
  from Matrix_WriteTo_buffered_shape [OF this A] False show ?thesis by simp
qed

lemma frame_Bufio_Sink:
  assumes "frame w' = frame (Bufio sz p (Sink s))"
  shows "\<exists>p' s'. w' = Bufio sz p' (Sink s') \<and>
           length (accepted s') + quota s' = length (accepted s) + quota s"
proof (cases w')
  case (Sink t)
  with assms show ?thesis by simp
next
  case (Buffer c b)
  with assms show ?thesis by simp
next
  case (Bufio sz' p' u)
  with assms have "sz' = sz" and F: "frame u = frame (Sink s)" by simp_all
  from F obtain s' where "u = Sink s'"
    and "length (accepted s') + quota s' = length (accepted s) + quota s"
    by (cases u) auto
  with Bufio \<open>sz' = sz\<close> show ?thesis by simp
qed

lemma Flush_None_top:
  "Flush w0 = (None, Bufio sz p u) \<Longrightarrow> p = []"
  by (cases w0) (auto split: prod.splits option.splits)

lemma Ciphertext_WriteTo_buffered_shape:
  assumes "is_buffer_Writer w" and "Ciphertext_WriteTo T ct w = (n, e, w')"
  shows "frame w' = frame w \<and> (e = None \<longrightarrow> (\<exists>w0. Flush w0 = (None, w')))"
proof -
  obtain n0 e0 w0 where W0: "Matrix_WriteTo T (gct_Value (fst (ct_Value ct))) w = (n0, e0, w0)"
    by (cases "Matrix_WriteTo T (gct_Value (fst (ct_Value ct))) w") auto
  note F0 = Matrix_WriteTo_buffered_shape [OF assms(1) W0]
  show ?thesis
  proof (cases e0)
    case None
    obtain n1 e1 w1 where W1: "Matrix_WriteTo T (gct_Value (snd (ct_Value ct))) w0 = (n1, e1, w1)"
      by (cases "Matrix_WriteTo T (gct_Value (snd (ct_Value ct))) w0") auto
    from F0 assms(1) have B0: "is_buffer_Writer w0"
      by (cases w; cases w0) auto
    from assms(2) W0 W1 None have E: "e = e1" "w' = w1"
      by (simp_all add: Ciphertext_WriteTo_buffered [OF assms(1)])
    from Matrix_WriteTo_buffered_shape [OF B0 W1] F0 E have "frame w' = frame w" by simp
    moreover have "e = None \<longrightarrow> (\<exists>u. Flush u = (None, w'))"
      using Matrix_WriteTo_buffered_None [OF B0, of T _ n1 w1] W1 E by auto
    ultimately show ?thesis by simp
  next
    case (Some err)
    with assms(2) W0 F0 show ?thesis
      by (auto simp: Ciphertext_WriteTo_buffered [OF assms(1)])
  qed
qed

text \<open>
  Claim C4, as the code has it. \<^verbatim>\<open>Matrix.WriteTo\<close> and \<^verbatim>\<open>Ciphertext.WriteTo\<close> on a sink
  that is not a \<^verbatim>\<open>buffer.Writer\<close> run on \<^verbatim>\<open>bufio.NewWriter\<close> of the sink: on every path the
  writer at the return is one decorator of the default size directly around the sink,
  and when the call succeeds the decorator holds no pending byte and the sink has
  accepted exactly the encoding after what it had. Nothing is said of the pending bytes
  when the call returns an error.
\<close>

theorem WriteTo_wraps_once_flushes_on_success:
  "(Matrix_WriteTo T m (Sink s) = (n, e, w') \<longrightarrow>
      Matrix_WriteTo T m (bufio_NewWriter (Sink s)) = (n, e, w')
      \<and> wraps w' = 1
      \<and> (\<exists>p s'. w' = Bufio 4096 p (Sink s')
            \<and> (e = None \<longrightarrow> p = [] \<and> accepted s' = accepted s @ Matrix_bytes T m)))
   \<and> (Ciphertext_WriteTo Tc ct (Sink s2) = (n2, e2, w2') \<longrightarrow>
      Ciphertext_WriteTo Tc ct (bufio_NewWriter (Sink s2)) = (n2, e2, w2')
      \<and> wraps w2' = 1
      \<and> (\<exists>p s'. w2' = Bufio 4096 p (Sink s')
            \<and> (e2 = None \<longrightarrow> p = [] \<and> accepted s' = accepted s2 @ Ciphertext_bytes Tc ct)))"
proof (intro conjI impI)
  assume A: "Matrix_WriteTo T m (Sink s) = (n, e, w')"
  then show B: "Matrix_WriteTo T m (bufio_NewWriter (Sink s)) = (n, e, w')"
    by (simp add: Matrix_WriteTo_wrap)
  from Matrix_WriteTo_shape [OF A] have F: "frame w' = frame (Bufio 4096 [] (Sink s))"
    by (simp add: bufio_NewWriter_def)
  from frame_Bufio_Sink [OF F] obtain p s' where W: "w' = Bufio 4096 p (Sink s')" by blast
  then show "wraps w' = 1" by simp
  have "e = None \<longrightarrow> p = [] \<and> accepted s' = accepted s @ Matrix_bytes T m"
  proof
    assume N: "e = None"
    have "is_buffer_Writer (bufio_NewWriter (Sink s))" by (simp add: bufio_NewWriter_def)
    from Matrix_WriteTo_buffered_None [OF this B [unfolded N]] W
    obtain w0 where "Flush w0 = (None, Bufio 4096 p (Sink s'))"
      and "stream (Bufio 4096 p (Sink s')) = stream (bufio_NewWriter (Sink s)) @ Matrix_bytes T m"
      by auto
    with Flush_None_top [of w0 4096 p "Sink s'"]
    show "p = [] \<and> accepted s' = accepted s @ Matrix_bytes T m"
      by (simp add: bufio_NewWriter_def)
  qed
  with W show "\<exists>p s'. w' = Bufio 4096 p (Sink s')
            \<and> (e = None \<longrightarrow> p = [] \<and> accepted s' = accepted s @ Matrix_bytes T m)"
    by blast
next
  assume A: "Ciphertext_WriteTo Tc ct (Sink s2) = (n2, e2, w2')"
  then show B: "Ciphertext_WriteTo Tc ct (bufio_NewWriter (Sink s2)) = (n2, e2, w2')"
    by (simp add: Ciphertext_WriteTo_wrap)
  have I: "is_buffer_Writer (bufio_NewWriter (Sink s2))" by (simp add: bufio_NewWriter_def)
  from Ciphertext_WriteTo_buffered_shape [OF I B]
  have F: "frame w2' = frame (Bufio 4096 [] (Sink s2))"
    and Fl: "e2 = None \<longrightarrow> (\<exists>w0. Flush w0 = (None, w2'))"
    by (simp_all add: bufio_NewWriter_def)
  from frame_Bufio_Sink [OF F] obtain p s' where W: "w2' = Bufio 4096 p (Sink s')" by blast
  then show "wraps w2' = 1" by simp
  have "e2 = None \<longrightarrow> p = [] \<and> accepted s' = accepted s2 @ Ciphertext_bytes Tc ct"
  proof
    assume N: "e2 = None"
    with Fl W obtain w0 where "Flush w0 = (None, Bufio 4096 p (Sink s'))" by auto
    from Flush_None_top [OF this] have P: "p = []" .
    from Ciphertext_WriteTo_None [OF A [unfolded N]] W P
    show "p = [] \<and> accepted s' = accepted s2 @ Ciphertext_bytes Tc ct" by simp
  qed
  with W show "\<exists>p s'. w2' = Bufio 4096 p (Sink s')
            \<and> (e2 = None \<longrightarrow> p = [] \<and> accepted s' = accepted s2 @ Ciphertext_bytes Tc ct)"
    by blast
qed

text \<open>Values of the examples.\<close>

lemma put_T_big: "put T_big x = (if x < 2 ^ 64 then Inr (put_le 8 x) else Inl ErrElement)"
  by (simp add: T_big_def)

lemma kind_T_big: "kind T_big = Kother ''big.Nat''"
  by (simp add: T_big_def)

text \<open>
  Claim C4 as stated asks for the flush on the error path too. A one-row matrix whose
  only element fails to write: \<^verbatim>\<open>WriteTo\<close> returns the error at once, the two counts (16
  bytes) stay in the decorator and the sink, which has room for them, has received nothing.
\<close>

theorem WriteTo_error_path_leaves_bytes_pending:
  "Matrix_WriteTo T_big [[2 ^ 64]] (channel 100) =
     (16, Some (Errorf ''structs.Vector[big.Nat].WriteTo'' ErrElement),
      Bufio 4096 [1, 0, 0, 0, 0, 0, 0, 0, 1, 0, 0, 0, 0, 0, 0, 0]
        (Sink \<lparr>accepted = [], quota = 100\<rparr>))
   \<and> pending_bytes (snd (snd (Matrix_WriteTo T_big [[2 ^ 64]] (channel 100)))) \<noteq> []"
proof -
  have "Matrix_WriteTo T_big [[2 ^ 64]] (channel 100) =
     (16, Some (Errorf ''structs.Vector[big.Nat].WriteTo'' ErrElement),
      Bufio 4096 [1, 0, 0, 0, 0, 0, 0, 0, 1, 0, 0, 0, 0, 0, 0, 0]
        (Sink \<lparr>accepted = [], quota = 100\<rparr>))"
    by (simp add: Matrix_WriteTo.simps channel_def bufio_NewWriter_def WriteAsUint64_def
        Vector_WriteTo_def put_T_big kind_T_big put_le_8_small)
  then show ?thesis by simp
qed

lemma Ciphertext_WriteTo_channel_example:
  "Ciphertext_WriteTo T_uint64 ct_example (channel 100) =
     (72, None, Bufio 4096 []
       (Sink \<lparr>accepted =
         [2, 0, 0, 0, 0, 0, 0, 0, 1, 0, 0, 0, 0, 0, 0, 0, 1, 0, 0, 0, 0, 0, 0, 0,
          2, 0, 0, 0, 0, 0, 0, 0, 2, 0, 0, 0, 0, 0, 0, 0, 3, 0, 0, 0, 0, 0, 0, 0,
          1, 0, 0, 0, 0, 0, 0, 0, 1, 0, 0, 0, 0, 0, 0, 0, 4, 0, 0, 0, 0, 0, 0, 0],
         quota = 28\<rparr>))"
  by (simp add: channel_def Ciphertext_WriteTo_wrap Ciphertext_WriteTo_buffered bufio_NewWriter_def
      ct_example_def Matrix_WriteTo.simps WriteAsUint64_def Vector_WriteTo_def put_T_uint64
      put_le_8_small)

text \<open>The theorem of C4 at the \<^verbatim>\<open>uint64\<close> matrix \<open>[[1], [2, 3]]\<close> and at \<open>ct_example\<close>.\<close>

theorem WriteTo_wraps_once_flushes_on_success_witness:
  "Matrix_WriteTo T_uint64 [[1], [2, 3]] (bufio_NewWriter (Sink \<lparr>accepted = [], quota = 100\<rparr>)) =
     (48, None, Bufio 4096 []
        (Sink \<lparr>accepted =
          [2, 0, 0, 0, 0, 0, 0, 0, 1, 0, 0, 0, 0, 0, 0, 0, 1, 0, 0, 0, 0, 0, 0, 0,
           2, 0, 0, 0, 0, 0, 0, 0, 2, 0, 0, 0, 0, 0, 0, 0, 3, 0, 0, 0, 0, 0, 0, 0],
          quota = 52\<rparr>))
   \<and> Matrix_bytes T_uint64 [[1], [2, 3]] =
       [2, 0, 0, 0, 0, 0, 0, 0, 1, 0, 0, 0, 0, 0, 0, 0, 1, 0, 0, 0, 0, 0, 0, 0,
        2, 0, 0, 0, 0, 0, 0, 0, 2, 0, 0, 0, 0, 0, 0, 0, 3, 0, 0, 0, 0, 0, 0, 0]
   \<and> Ciphertext_WriteTo T_uint64 ct_example (bufio_NewWriter (Sink \<lparr>accepted = [], quota = 100\<rparr>)) =
     (72, None, Bufio 4096 []
       (Sink \<lparr>accepted =
         [2, 0, 0, 0, 0, 0, 0, 0, 1, 0, 0, 0, 0, 0, 0, 0, 1, 0, 0, 0, 0, 0, 0, 0,
          2, 0, 0, 0, 0, 0, 0, 0, 2, 0, 0, 0, 0, 0, 0, 0, 3, 0, 0, 0, 0, 0, 0, 0,
          1, 0, 0, 0, 0, 0, 0, 0, 1, 0, 0, 0, 0, 0, 0, 0, 4, 0, 0, 0, 0, 0, 0, 0],
         quota = 28\<rparr>))
   \<and> Ciphertext_bytes T_uint64 ct_example =
         [2, 0, 0, 0, 0, 0, 0, 0, 1, 0, 0, 0, 0, 0, 0, 0, 1, 0, 0, 0, 0, 0, 0, 0,
          2, 0, 0, 0, 0, 0, 0, 0, 2, 0, 0, 0, 0, 0, 0, 0, 3, 0, 0, 0, 0, 0, 0, 0,
          1, 0, 0, 0, 0, 0, 0, 0, 1, 0, 0, 0, 0, 0, 0, 0, 4, 0, 0, 0, 0, 0, 0, 0]"
  using WriteTo_wraps_once_flushes_on_success [where T = T_uint64 and m = "[[1], [2, 3]]"
      and s = "\<lparr>accepted = [], quota = 100\<rparr>" and n = 48 and e = None
      and w' = "Bufio 4096 []
        (Sink \<lparr>accepted =
          [2, 0, 0, 0, 0, 0, 0, 0, 1, 0, 0, 0, 0, 0, 0, 0, 1, 0, 0, 0, 0, 0, 0, 0,
           2, 0, 0, 0, 0, 0, 0, 0, 2, 0, 0, 0, 0, 0, 0, 0, 3, 0, 0, 0, 0, 0, 0, 0],
          quota = 52\<rparr>)"
      and Tc = T_uint64 and ct = ct_example
      and ?s2.0 = "\<lparr>accepted = [], quota = 100\<rparr>" and ?n2.0 = 72 and ?e2.0 = None
      and w2' = "Bufio 4096 []
       (Sink \<lparr>accepted =
         [2, 0, 0, 0, 0, 0, 0, 0, 1, 0, 0, 0, 0, 0, 0, 0, 1, 0, 0, 0, 0, 0, 0, 0,
          2, 0, 0, 0, 0, 0, 0, 0, 2, 0, 0, 0, 0, 0, 0, 0, 3, 0, 0, 0, 0, 0, 0, 0,
          1, 0, 0, 0, 0, 0, 0, 0, 1, 0, 0, 0, 0, 0, 0, 0, 4, 0, 0, 0, 0, 0, 0, 0],
         quota = 28\<rparr>)"]
    Matrix_WriteTo_uint64_example Ciphertext_WriteTo_channel_example
  by (simp add: channel_def)

subsection \<open>Propagation of I/O failures\<close>

lemma Matrix_ReadFrom_buffered:
  "is_buffer_Reader r \<Longrightarrow>
     Matrix_ReadFrom T r =
       (case ReadAsUint64 r of
          (n, Inl err, r') \<Rightarrow> (n, Inl (Errorf ''buffer.ReadAsUint64[int]'' err), r')
        | (n, Inr sz, r') \<Rightarrow> ReadFrom_rows T sz n r')"
  by (subst Matrix_ReadFrom.simps) simp

lemma ReadFrom_rows_Inl:
  "ReadFrom_rows T k n r = (n', Inl E, r') \<Longrightarrow>
     \<exists>e. E = Errorf (''structs.Vector['' @ type_name (kind T) @ ''].ReadFrom'') e"
proof (induction k arbitrary: n r n' r')
  case 0
  then show ?case by simp
next
  case (Suc k)
  obtain inc res r1 where V: "Vector_ReadFrom T r = (inc, res, r1)"
    by (cases "Vector_ReadFrom T r") auto
  show ?case
  proof (cases res)
    case (Inl err)
    with Suc.prems V show ?thesis by auto
  next
    case (Inr v)
    obtain n2 res2 r2 where R: "ReadFrom_rows T k (n + inc) r1 = (n2, res2, r2)"
      by (cases "ReadFrom_rows T k (n + inc) r1") auto
    with Suc.prems V Inr have "res2 = Inl E"
      by (cases res2) auto
    with R Suc.IH show ?thesis by blast
  qed
qed

lemma Matrix_ReadFrom_Inl:
  assumes "Matrix_ReadFrom T r = (n, Inl E, r')"
  shows "(\<exists>e. E = Errorf ''buffer.ReadAsUint64[int]'' e) \<or>
         (\<exists>e. E = Errorf (''structs.Vector['' @ type_name (kind T) @ ''].ReadFrom'') e)"
proof -
  from assms have A: "Matrix_ReadFrom T (Reader (remaining r)) = (n, Inl E, r')"
    by (simp add: Matrix_ReadFrom_remaining [symmetric])
  obtain k res r1 where H: "ReadAsUint64 (Reader (remaining r)) = (k, res, r1)"
    by (cases "ReadAsUint64 (Reader (remaining r))") auto
  show ?thesis
  proof (cases res)
    case (Inl err)
    with A H show ?thesis by (auto simp: Matrix_ReadFrom_buffered)
  next
    case (Inr sz)
    with A H have "ReadFrom_rows T sz k r1 = (n, Inl E, r')"
      by (simp add: Matrix_ReadFrom_buffered)
    from ReadFrom_rows_Inl [OF this] show ?thesis by blast
  qed
qed

lemma WriteTo_rows_Some:
  "WriteTo_rows T m n w = (n', Some E, w') \<Longrightarrow>
     (\<exists>e. E = Errorf (''structs.Vector['' @ type_name (kind T) @ ''].WriteTo'') e) \<or>
     (\<exists>w0. Flush w0 = (Some E, w'))"
proof (induction m arbitrary: n w)
  case Nil
  then show ?case by (auto split: prod.splits)
next
  case (Cons v vs)
  obtain inc e1 w1 where V: "Vector_WriteTo T v w = (inc, e1, w1)"
    by (cases "Vector_WriteTo T v w") auto
  show ?case
  proof (cases e1)
    case None
    with Cons.prems V have "WriteTo_rows T vs (n + inc) w1 = (n', Some E, w')" by simp
    from Cons.IH [OF this] show ?thesis .
  next
    case (Some err)
    with Cons.prems V show ?thesis by auto
  qed
qed

lemma Matrix_WriteTo_Some:
  assumes "Matrix_WriteTo T m w = (n, Some E, w')"
  shows "(\<exists>e. E = Errorf ''buffer.WriteAsUint64[int]'' e) \<or>
         (\<exists>e. E = Errorf (''structs.Vector['' @ type_name (kind T) @ ''].WriteTo'') e) \<or>
         (\<exists>w0. Flush w0 = (Some E, w'))"
proof -
  define u where "u = (if is_buffer_Writer w then w else bufio_NewWriter w)"
  have B: "is_buffer_Writer u" by (simp add: u_def bufio_NewWriter_def)
  from assms have A: "Matrix_WriteTo T m u = (n, Some E, w')"
    by (cases "is_buffer_Writer w") (simp_all add: u_def Matrix_WriteTo_wrap)
  obtain inc e1 w1 where W: "WriteAsUint64 (length m) u = (inc, e1, w1)"
    by (cases "WriteAsUint64 (length m) u") auto
  show ?thesis
  proof (cases e1)
    case None
    with A W have "WriteTo_rows T m inc w1 = (n, Some E, w')"
      by (simp add: Matrix_WriteTo_buffered [OF B])
    from WriteTo_rows_Some [OF this] show ?thesis by blast
  next
    case (Some err)
    with A W show ?thesis by (auto simp: Matrix_WriteTo_buffered [OF B])
  qed
qed

text \<open>A channel with too little room.\<close>

lemma Matrix_WriteTo_Sink_None:
  assumes "Matrix_WriteTo T m (Sink s) = (n, None, w')"
  shows "\<exists>s'. w' = Bufio 4096 [] (Sink s') \<and> accepted s' = accepted s @ Matrix_bytes T m
           \<and> length (accepted s') + quota s' = length (accepted s) + quota s"
proof -
  from assms have B: "Matrix_WriteTo T m (bufio_NewWriter (Sink s)) = (n, None, w')"
    by (simp add: Matrix_WriteTo_wrap)
  from Matrix_WriteTo_shape [OF assms] have F: "frame w' = frame (Bufio 4096 [] (Sink s))"
    by (simp add: bufio_NewWriter_def)
  from frame_Bufio_Sink [OF F] obtain p s' where W: "w' = Bufio 4096 p (Sink s')"
    and Q: "length (accepted s') + quota s' = length (accepted s) + quota s" by blast
  have "is_buffer_Writer (bufio_NewWriter (Sink s))" by (simp add: bufio_NewWriter_def)
  from Matrix_WriteTo_buffered_None [OF this B] W
  obtain w0 where "Flush w0 = (None, Bufio 4096 p (Sink s'))"
    and S: "stream (Bufio 4096 p (Sink s')) = stream (bufio_NewWriter (Sink s)) @ Matrix_bytes T m"
    by auto
  from Flush_None_top [OF this(1)] S W Q show ?thesis
    by (simp add: bufio_NewWriter_def)
qed

lemma Matrix_WriteTo_Sink_too_small:
  assumes "quota s < length (Matrix_bytes T m)"
  shows "\<exists>n E w'. Matrix_WriteTo T m (Sink s) = (n, Some E, w')"
proof -
  obtain n e w' where R: "Matrix_WriteTo T m (Sink s) = (n, e, w')"
    by (cases "Matrix_WriteTo T m (Sink s)") auto
  show ?thesis
  proof (cases e)
    case None
    from Matrix_WriteTo_Sink_None [OF R [unfolded None]] assms show ?thesis by auto
  next
    case (Some E)
    with R show ?thesis by blast
  qed
qed

text \<open>A source that ends too early.\<close>

lemma ReadAsUint64_short:
  "length (remaining r) < 8 \<Longrightarrow> ReadAsUint64 r = (0, Inl ErrUnexpectedEOF, r)"
  by (simp add: ReadAsUint64_def)

lemma Vector_ReadFrom_elems_short:
  "\<forall>x \<in> set xs. codec_ok T x \<and> short_read_ok T x \<Longrightarrow>
   j < length (concat (map (elem_bytes T) xs)) \<Longrightarrow>
   remaining r = take j (concat (map (elem_bytes T) xs)) \<Longrightarrow>
     \<exists>n' e r'. Vector_ReadFrom_elems T (length xs) n r = (n', Inl e, r')"
proof (induction xs arbitrary: n r j)
  case Nil
  then show ?case by simp
next
  case (Cons x xs)
  let ?eb = "elem_bytes T x" and ?C = "concat (map (elem_bytes T) xs)"
  show ?case
  proof (cases "j < length ?eb")
    case True
    with Cons.prems have "remaining r = take j ?eb" by simp
    moreover from Cons.prems True obtain err where "get T (take j ?eb) = Inl err"
      by (auto simp: short_read_ok_def)
    ultimately show ?thesis by simp
  next
    case False
    let ?rest = "take (j - length ?eb) ?C"
    from False Cons.prems have R: "remaining r = ?eb @ ?rest" by simp
    from Cons.prems have G: "get T (?eb @ ?rest) = Inr (x, ?rest)"
      by (simp add: codec_ok_def)
    have "\<exists>n' e r'. Vector_ReadFrom_elems T (length xs)
            (n + (length (remaining r) - length ?rest)) (seek ?rest r) = (n', Inl e, r')"
      using Cons.prems False by (intro Cons.IH [where j = "j - length ?eb"]) auto
    then obtain n' e r' where "Vector_ReadFrom_elems T (length xs)
            (n + (length (remaining r) - length ?rest)) (seek ?rest r) = (n', Inl e, r')"
      by blast
    with R G show ?thesis by simp
  qed
qed

lemma Vector_ReadFrom_short:
  assumes "valid_Vector T v" and "\<forall>x \<in> set v. short_read_ok T x"
    and "j < length (Vector_bytes T v)" and "remaining r = take j (Vector_bytes T v)"
  shows "\<exists>n e r'. Vector_ReadFrom T r = (n, Inl e, r')"
proof (cases "j < 8")
  case True
  with assms(3,4) have "length (remaining r) < 8" by simp
  from ReadAsUint64_short [OF this] show ?thesis by (simp add: Vector_ReadFrom_def)
next
  case False
  let ?C = "concat (map (elem_bytes T) v)"
  let ?rest = "take (j - 8) ?C"
  from assms(1) have L: "length v < 2 ^ 64" and C: "\<forall>x \<in> set v. codec_ok T x"
    by (auto simp: valid_Vector_def intro: less_trans)
  from False assms(4) have "remaining r = put_le 8 (length v) @ ?rest"
    by (simp add: Vector_bytes_def length_put_le)
  from ReadAsUint64_put_le [OF L this]
  have H: "ReadAsUint64 r = (8, Inr (length v), seek ?rest r)" .
  have "\<exists>n' e r'. Vector_ReadFrom_elems T (length v) 8 (seek ?rest r) = (n', Inl e, r')"
    using C assms(2,3) False
    by (intro Vector_ReadFrom_elems_short [where j = "j - 8"])
      (auto simp: Vector_bytes_def length_put_le)
  with H show ?thesis by (simp add: Vector_ReadFrom_def)
qed

lemma ReadFrom_rows_short:
  "\<forall>v \<in> set m. valid_Vector T v \<and> (\<forall>x \<in> set v. short_read_ok T x) \<Longrightarrow>
   j < length (concat (map (Vector_bytes T) m)) \<Longrightarrow>
   remaining r = take j (concat (map (Vector_bytes T) m)) \<Longrightarrow>
     \<exists>n' E r'. ReadFrom_rows T (length m) n r = (n', Inl E, r')"
proof (induction m arbitrary: n r j)
  case Nil
  then show ?case by simp
next
  case (Cons v vs)
  let ?vb = "Vector_bytes T v" and ?C = "concat (map (Vector_bytes T) vs)"
  from Cons.prems have V: "valid_Vector T v" and S: "\<forall>x \<in> set v. short_read_ok T x"
    by simp_all
  show ?case
  proof (cases "j < length ?vb")
    case True
    with Cons.prems have "remaining r = take j ?vb" by simp
    from Vector_ReadFrom_short [OF V S True this]
    obtain n1 e r1 where "Vector_ReadFrom T r = (n1, Inl e, r1)" by blast
    then show ?thesis by simp
  next
    case False
    let ?rest = "take (j - length ?vb) ?C"
    from False Cons.prems have R: "remaining r = ?vb @ ?rest" by simp
    from Vector_ReadFrom_bytes [OF V R]
    have H: "Vector_ReadFrom T r = (length ?vb, Inr v, seek ?rest r)" .
    have "\<exists>n' E r'. ReadFrom_rows T (length vs) (n + length ?vb) (seek ?rest r) = (n', Inl E, r')"
      using Cons.prems False by (intro Cons.IH [where j = "j - length ?vb"]) auto
    then obtain n' E r' where
      "ReadFrom_rows T (length vs) (n + length ?vb) (seek ?rest r) = (n', Inl E, r')"
      by blast
    with H show ?thesis by simp
  qed
qed

lemma Matrix_ReadFrom_short:
  assumes "valid_for_short_reads T m"
    and "j < length (Matrix_bytes T m)" and "remaining r = take j (Matrix_bytes T m)"
  shows "\<exists>n E r'. Matrix_ReadFrom T r = (n, Inl E, r')"
proof -
  let ?r = "Reader (remaining r)"
  have B: "is_buffer_Reader ?r" by simp
  have "\<exists>n E r'. Matrix_ReadFrom T ?r = (n, Inl E, r')"
  proof (cases "j < 8")
    case True
    with assms(2,3) have "length (remaining ?r) < 8" by simp
    from ReadAsUint64_short [OF this] show ?thesis
      by (simp add: Matrix_ReadFrom_buffered [OF B])
  next
    case False
    let ?C = "concat (map (Vector_bytes T) m)"
    let ?rest = "take (j - 8) ?C"
    from assms(1) have L: "length m < 2 ^ 64"
      and C: "\<forall>v \<in> set m. valid_Vector T v \<and> (\<forall>x \<in> set v. short_read_ok T x)"
      by (auto simp: valid_for_short_reads_def valid_Matrix_def intro: less_trans)
    from False assms(3) have "remaining ?r = put_le 8 (length m) @ ?rest"
      by (simp add: Matrix_bytes_def length_put_le)
    from ReadAsUint64_put_le [OF L this]
    have H: "ReadAsUint64 ?r = (8, Inr (length m), seek ?rest ?r)" .
    have "\<exists>n' E r'. ReadFrom_rows T (length m) 8 (seek ?rest ?r) = (n', Inl E, r')"
      using C assms(2) False
      by (intro ReadFrom_rows_short [where j = "j - 8"])
        (auto simp: Matrix_bytes_def length_put_le)
    with H show ?thesis by (simp add: Matrix_ReadFrom_buffered [OF B])
  qed
  then show ?thesis by (simp add: Matrix_ReadFrom_remaining [symmetric])
qed

text \<open>
  Claim C5, as the code has it. An I/O failure inside \<^verbatim>\<open>Matrix.ReadFrom\<close> or
  \<^verbatim>\<open>Matrix.WriteTo\<close> is returned to the caller, never success:
  \<^item> every error of \<^verbatim>\<open>ReadFrom\<close> is the error of the row count wrapped under
    \<^verbatim>\<open>buffer.ReadAsUint64[int]\<close> or the error of a row wrapped under
    \<^verbatim>\<open>structs.Vector[T].ReadFrom\<close>, and every error of \<^verbatim>\<open>WriteTo\<close> is wrapped under
    \<^verbatim>\<open>buffer.WriteAsUint64[int]\<close> or \<^verbatim>\<open>structs.Vector[T].WriteTo\<close>, or is the error of the
    final \<^verbatim>\<open>Flush\<close>, returned as it is; the wrapping names the operation and the element
    type, not the row;
  \<^item> a source that holds only a proper prefix of the encoding of a valid matrix makes
    \<^verbatim>\<open>ReadFrom\<close> return an error;
  \<^item> a channel with room for fewer bytes than the encoding makes \<^verbatim>\<open>WriteTo\<close> return an
    error.
\<close>

theorem io_failures_are_returned:
  "(Matrix_ReadFrom T r = (n, Inl E, r') \<longrightarrow>
      (\<exists>e. E = Errorf ''buffer.ReadAsUint64[int]'' e) \<or>
      (\<exists>e. E = Errorf (''structs.Vector['' @ type_name (kind T) @ ''].ReadFrom'') e))
   \<and> (valid_for_short_reads T m \<and> j < length (Matrix_bytes T m)
        \<and> remaining r1 = take j (Matrix_bytes T m) \<longrightarrow>
      (\<exists>n1 E1 r1'. Matrix_ReadFrom T r1 = (n1, Inl E1, r1')))
   \<and> (Matrix_WriteTo T m w = (n2, Some E2, w') \<longrightarrow>
      (\<exists>e. E2 = Errorf ''buffer.WriteAsUint64[int]'' e) \<or>
      (\<exists>e. E2 = Errorf (''structs.Vector['' @ type_name (kind T) @ ''].WriteTo'') e) \<or>
      (\<exists>w0. Flush w0 = (Some E2, w')))
   \<and> (quota s < length (Matrix_bytes T m) \<longrightarrow>
      (\<exists>n3 E3 w3. Matrix_WriteTo T m (Sink s) = (n3, Some E3, w3)))"
proof (intro conjI impI)
  assume "Matrix_ReadFrom T r = (n, Inl E, r')"
  then show "(\<exists>e. E = Errorf ''buffer.ReadAsUint64[int]'' e) \<or>
      (\<exists>e. E = Errorf (''structs.Vector['' @ type_name (kind T) @ ''].ReadFrom'') e)"
    by (rule Matrix_ReadFrom_Inl)
next
  assume "valid_for_short_reads T m \<and> j < length (Matrix_bytes T m)
        \<and> remaining r1 = take j (Matrix_bytes T m)"
  then show "\<exists>n1 E1 r1'. Matrix_ReadFrom T r1 = (n1, Inl E1, r1')"
    using Matrix_ReadFrom_short [of T m j r1] by simp
next
  assume "Matrix_WriteTo T m w = (n2, Some E2, w')"
  then show "(\<exists>e. E2 = Errorf ''buffer.WriteAsUint64[int]'' e) \<or>
      (\<exists>e. E2 = Errorf (''structs.Vector['' @ type_name (kind T) @ ''].WriteTo'') e) \<or>
      (\<exists>w0. Flush w0 = (Some E2, w'))"
    by (rule Matrix_WriteTo_Some)
next
  assume "quota s < length (Matrix_bytes T m)"
  then show "\<exists>n3 E3 w3. Matrix_WriteTo T m (Sink s) = (n3, Some E3, w3)"
    by (rule Matrix_WriteTo_Sink_too_small)
qed

text \<open>Values of the examples.\<close>

lemma get_T_uint64_short: "length bs < 8 \<Longrightarrow> get T_uint64 bs = Inl ErrUnexpectedEOF"
  by (simp add: T_uint64_def)

lemma short_read_ok_T_uint64: "short_read_ok T_uint64 x"
  unfolding short_read_ok_def
proof (intro allI impI)
  fix k
  assume "k < length (elem_bytes T_uint64 x)"
  then have "length (take k (elem_bytes T_uint64 x)) < 8"
    by (simp add: elem_bytes_T_uint64 length_put_le)
  from get_T_uint64_short [OF this]
  show "\<exists>err. get T_uint64 (take k (elem_bytes T_uint64 x)) = Inl err" by blast
qed

lemma ReadFrom_rows_numeral:
  "ReadFrom_rows T (numeral k) n r = ReadFrom_rows T (Suc (pred_numeral k)) n r"
  by (simp add: numeral_eq_Suc)

lemma valid_for_short_reads_example: "valid_for_short_reads T_uint64 [[1], [2, 3]]"
  by (simp add: valid_for_short_reads_def valid_uint64_example short_read_ok_T_uint64)

lemma Matrix_ReadFrom_row0_example:
  "Matrix_ReadFrom T_uint64 (Source [1, 0, 0, 0, 0, 0, 0, 0, 0, 0, 0]) =
     (8, Inl (Errorf ''structs.Vector[uint64].ReadFrom'' ErrUnexpectedEOF), Reader [0, 0, 0])"
  by (simp add: Matrix_ReadFrom.simps bufio_NewReader_def ReadAsUint64_def Vector_ReadFrom_def
      kind_T_uint64)

lemma Matrix_ReadFrom_row1_example:
  "Matrix_ReadFrom T_uint64
     (Source [2, 0, 0, 0, 0, 0, 0, 0, 0, 0, 0, 0, 0, 0, 0, 0, 0, 0, 0]) =
     (16, Inl (Errorf ''structs.Vector[uint64].ReadFrom'' ErrUnexpectedEOF), Reader [0, 0, 0])"
  by (simp add: Matrix_ReadFrom.simps bufio_NewReader_def ReadAsUint64_def Vector_ReadFrom_def
      kind_T_uint64 ReadFrom_rows_numeral get_T_uint64_short)

lemma Matrix_WriteTo_flush_fails_example:
  "Matrix_WriteTo T_uint64 [[1]] (channel 10) =
     (24, Some ErrShortWrite,
      Bufio 4096 [0, 0, 0, 0, 0, 0, 1, 0, 0, 0, 0, 0, 0, 0]
        (Sink \<lparr>accepted = [1, 0, 0, 0, 0, 0, 0, 0, 1, 0], quota = 0\<rparr>))"
  by (simp add: Matrix_WriteTo.simps channel_def bufio_NewWriter_def WriteAsUint64_def
      Vector_WriteTo_def put_T_uint64 put_le_8_small)

text \<open>
  Claim C5 as stated asks for the row index in the error. A source that ends inside row 0
  and one that ends inside row 1 give the same error value, which names no row; and a
  channel that fails at the final \<^verbatim>\<open>Flush\<close> gives its own error with no annotation.
\<close>

theorem errors_carry_no_row_index:
  "Matrix_ReadFrom T_uint64 (Source [1, 0, 0, 0, 0, 0, 0, 0, 0, 0, 0]) =
     (8, Inl (Errorf ''structs.Vector[uint64].ReadFrom'' ErrUnexpectedEOF), Reader [0, 0, 0])
   \<and> Matrix_ReadFrom T_uint64
       (Source [2, 0, 0, 0, 0, 0, 0, 0, 0, 0, 0, 0, 0, 0, 0, 0, 0, 0, 0]) =
     (16, Inl (Errorf ''structs.Vector[uint64].ReadFrom'' ErrUnexpectedEOF), Reader [0, 0, 0])
   \<and> Matrix_WriteTo T_uint64 [[1]] (channel 10) =
     (24, Some ErrShortWrite,
      Bufio 4096 [0, 0, 0, 0, 0, 0, 1, 0, 0, 0, 0, 0, 0, 0]
        (Sink \<lparr>accepted = [1, 0, 0, 0, 0, 0, 0, 0, 1, 0], quota = 0\<rparr>))"
  by (simp only: Matrix_ReadFrom_row0_example Matrix_ReadFrom_row1_example
      Matrix_WriteTo_flush_fails_example simp_thms)

text \<open>
  The theorem of C5 on a source cut inside row 0, on the encoding of \<open>[[1], [2, 3]]\<close> without
  its last byte, and on channels with room for ten bytes.
\<close>

theorem io_failures_are_returned_witness:
  "(\<exists>e. Errorf ''structs.Vector[uint64].ReadFrom'' ErrUnexpectedEOF =
          Errorf (''structs.Vector['' @ type_name (kind T_uint64) @ ''].ReadFrom'') e)
   \<and> (\<exists>n1 E1 r1'. Matrix_ReadFrom T_uint64 (Source (take 47 (Matrix_bytes T_uint64 [[1], [2, 3]]))) =
         (n1, Inl E1, r1'))
   \<and> (\<exists>w0. Flush w0 =
         (Some ErrShortWrite,
          Bufio 4096 [0, 0, 0, 0, 0, 0, 1, 0, 0, 0, 0, 0, 0, 0]
            (Sink \<lparr>accepted = [1, 0, 0, 0, 0, 0, 0, 0, 1, 0], quota = 0\<rparr>)))
   \<and> (\<exists>n3 E3 w3. Matrix_WriteTo T_uint64 [[1], [2, 3]] (Sink \<lparr>accepted = [], quota = 10\<rparr>) =
         (n3, Some E3, w3))"
proof -
  have L: "length (Matrix_bytes T_uint64 [[1], [2, 3]]) = 48"
    by (simp add: Matrix_bytes_uint64_example)
  note t = io_failures_are_returned [where T = T_uint64
      and r = "Source [1, 0, 0, 0, 0, 0, 0, 0, 0, 0, 0]" and n = 8
      and E = "Errorf ''structs.Vector[uint64].ReadFrom'' ErrUnexpectedEOF"
      and r' = "Reader [0, 0, 0]"
      and m = "[[1], [2, 3]]" and j = 47
      and ?r1.0 = "Source (take 47 (Matrix_bytes T_uint64 [[1], [2, 3]]))"
      and s = "\<lparr>accepted = [], quota = 10\<rparr>"]
  have A: "\<exists>e. Errorf ''structs.Vector[uint64].ReadFrom'' ErrUnexpectedEOF =
          Errorf (''structs.Vector['' @ type_name (kind T_uint64) @ ''].ReadFrom'') e"
    using t Matrix_ReadFrom_row0_example by simp
  have B: "\<exists>n1 E1 r1'. Matrix_ReadFrom T_uint64 (Source (take 47 (Matrix_bytes T_uint64 [[1], [2, 3]]))) =
         (n1, Inl E1, r1')"
    using t valid_for_short_reads_example L by simp
  have D: "\<exists>n3 E3 w3. Matrix_WriteTo T_uint64 [[1], [2, 3]] (Sink \<lparr>accepted = [], quota = 10\<rparr>) =
         (n3, Some E3, w3)"
    using t L by simp
  have C: "\<exists>w0. Flush w0 =
         (Some ErrShortWrite,
          Bufio 4096 [0, 0, 0, 0, 0, 0, 1, 0, 0, 0, 0, 0, 0, 0]
            (Sink \<lparr>accepted = [1, 0, 0, 0, 0, 0, 0, 0, 1, 0], quota = 0\<rparr>))"
    using io_failures_are_returned [where T = T_uint64 and m = "[[1]]" and w = "channel 10"
        and ?n2.0 = 24 and ?E2.0 = ErrShortWrite
        and w' = "Bufio 4096 [0, 0, 0, 0, 0, 0, 1, 0, 0, 0, 0, 0, 0, 0]
            (Sink \<lparr>accepted = [1, 0, 0, 0, 0, 0, 0, 0, 1, 0], quota = 0\<rparr>)"]
      Matrix_WriteTo_flush_fails_example
    by simp
  from A B C D show ?thesis by simp
qed

subsection \<open>CopyNew on the store\<close>

lemma CopyNew_rows_post:
  "mcpy < brk h \<Longrightarrow> \<forall>a. Some a \<in> set ss \<longrightarrow> a < brk h \<Longrightarrow> i + length ss = length (mats h mcpy) \<Longrightarrow>
   h' = CopyNew_rows cp ss mcpy i h \<Longrightarrow>
     (\<forall>a < brk h. rows h' a = rows h a) \<and>
     (\<forall>a. a \<noteq> mcpy \<longrightarrow> mats h' a = mats h a) \<and>
     length (mats h' mcpy) = length (mats h mcpy) \<and>
     take i (mats h' mcpy) = take i (mats h mcpy) \<and>
     map (row_slice h') (drop i (mats h' mcpy)) = map (\<lambda>s. map cp (row_slice h s)) ss \<and>
     (\<forall>s \<in> set (drop i (mats h' mcpy)). \<exists>a. s = Some a \<and> brk h \<le> a)"
proof (induction ss arbitrary: i h h')
  case Nil
  then show ?case by simp
next
  case (Cons s ss)
  let ?a = "brk h"
  define h1 where "h1 = h\<lparr>rows := (rows h)(?a := map cp (row_slice h s)), brk := Suc ?a,
      mats := (mats h)(mcpy := (mats h mcpy)[i := Some ?a])\<rparr>"
  have step: "h' = CopyNew_rows cp ss mcpy (Suc i) h1"
    using Cons.prems(4) by (simp add: make_row_def row_slices_def h1_def)
  have I: "i < length (mats h mcpy)" using Cons.prems(3) by simp
  have P1: "mcpy < brk h1" using Cons.prems(1) by (simp add: h1_def)
  have P2: "\<forall>a. Some a \<in> set ss \<longrightarrow> a < brk h1" using Cons.prems(2) by (auto simp: h1_def)
  have P3: "Suc i + length ss = length (mats h1 mcpy)" using Cons.prems(3) by (simp add: h1_def)
  note IH = Cons.IH [OF P1 P2 P3 step]
  from IH have R: "\<forall>a < Suc ?a. rows h' a = rows h1 a" by (simp add: h1_def)
  from IH have M: "\<forall>a. a \<noteq> mcpy \<longrightarrow> mats h' a = mats h1 a" by simp
  from IH have L: "length (mats h' mcpy) = length (mats h1 mcpy)" by simp
  from IH have T: "take (Suc i) (mats h' mcpy) = take (Suc i) (mats h1 mcpy)" by simp
  from IH have D: "map (row_slice h') (drop (Suc i) (mats h' mcpy)) =
      map (\<lambda>s. map cp (row_slice h1 s)) ss" by simp
  from IH have F: "\<forall>s \<in> set (drop (Suc i) (mats h' mcpy)). \<exists>a. s = Some a \<and> Suc ?a \<le> a"
    by (simp add: h1_def)
  have L1: "length (mats h1 mcpy) = length (mats h mcpy)" by (simp add: h1_def)
  have C1: "\<forall>a < brk h. rows h' a = rows h a"
    using R by (auto simp: h1_def)
  have C2: "\<forall>a. a \<noteq> mcpy \<longrightarrow> mats h' a = mats h a"
    using M by (simp add: h1_def)
  have C3: "length (mats h' mcpy) = length (mats h mcpy)"
    using L L1 by simp
  have "take i (take (Suc i) (mats h' mcpy)) = take i (take (Suc i) (mats h1 mcpy))"
    using T by simp
  then have C4: "take i (mats h' mcpy) = take i (mats h mcpy)"
    by (simp add: h1_def min_def)
  have "take (Suc i) (mats h' mcpy) ! i = take (Suc i) (mats h1 mcpy) ! i"
    using T by simp
  then have N: "mats h' mcpy ! i = Some ?a"
    using I by (simp add: h1_def)
  have Dr: "drop i (mats h' mcpy) = Some ?a # drop (Suc i) (mats h' mcpy)"
    using I C3 N Cons_nth_drop_Suc [of i "mats h' mcpy"] by simp
  have Ra: "row_slice h' (Some ?a) = map cp (row_slice h s)"
    using R by (simp add: row_slice_def h1_def)
  have "\<forall>t \<in> set ss. row_slice h1 t = row_slice h t"
    using Cons.prems(2) by (auto simp: row_slice_def h1_def split: option.splits)
  then have "map (\<lambda>s. map cp (row_slice h1 s)) ss = map (\<lambda>s. map cp (row_slice h s)) ss"
    by simp
  with D Dr Ra have C5: "map (row_slice h') (drop i (mats h' mcpy)) =
      map (\<lambda>s. map cp (row_slice h s)) (s # ss)"
    by simp
  have C6: "\<forall>s \<in> set (drop i (mats h' mcpy)). \<exists>a. s = Some a \<and> brk h \<le> a"
    using F Dr by auto
  from C1 C2 C3 C4 C5 C6 show ?case by blast
qed

lemma Matrix_CopyNew_post:
  assumes "in_use h x" and "Matrix_CopyNew T x h = Inr (y, h')"
  shows "y = brk h \<and> (\<forall>a < brk h. rows h' a = rows h a) \<and> (\<forall>a. a \<noteq> y \<longrightarrow> mats h' a = mats h a) \<and>
         (\<forall>s \<in> set (mats h' y). \<exists>a. s = Some a \<and> brk h < a) \<and>
         load h' y = map (map (copier T)) (load h x) \<and> load h' x = load h x"
proof -
  let ?n = "length (mats h x)"
  define h0 where "h0 = h\<lparr>mats := (mats h)(brk h := replicate ?n None), brk := Suc (brk h)\<rparr>"
  from assms(2) have E: "y = brk h \<and> h' = CopyNew_rows (copier T) (mats h x) (brk h) 0 h0"
    by (auto simp: Matrix_CopyNew_def make_matrix_def row_slices_def copier_def h0_def
        split: if_splits option.splits)
  from assms(1) have X: "x < brk h" and XR: "\<forall>a. Some a \<in> set (mats h x) \<longrightarrow> a < brk h"
    by (simp_all add: in_use_def row_slices_def)
  have P1: "brk h < brk h0" by (simp add: h0_def)
  have P2: "\<forall>a. Some a \<in> set (mats h x) \<longrightarrow> a < brk h0" using XR by (auto simp: h0_def)
  have P3: "0 + length (mats h x) = length (mats h0 (brk h))" by (simp add: h0_def)
  from E have P4: "h' = CopyNew_rows (copier T) (mats h x) (brk h) 0 h0" by simp
  note post = CopyNew_rows_post [OF P1 P2 P3 P4]
  from post have R: "\<forall>a < brk h. rows h' a = rows h a" by (simp add: h0_def)
  from post have M: "\<forall>a. a \<noteq> brk h \<longrightarrow> mats h' a = mats h a" by (simp add: h0_def)
  from post have F: "\<forall>s \<in> set (mats h' (brk h)). \<exists>a. s = Some a \<and> brk h < a"
    by (auto simp: h0_def)
  have S0: "\<forall>s \<in> set (mats h x). row_slice h0 s = row_slice h s"
    by (simp add: row_slice_def h0_def split: option.splits)
  from post have "map (row_slice h') (mats h' (brk h)) =
      map (\<lambda>s. map (copier T) (row_slice h0 s)) (mats h x)" by simp
  also have "\<dots> = map (\<lambda>s. map (copier T) (row_slice h s)) (mats h x)" using S0 by simp
  finally have Y: "load h' (brk h) = map (map (copier T)) (load h x)"
    by (simp add: load_def row_slices_def comp_def)
  from X M have "mats h' x = mats h x" by simp
  moreover have "\<forall>s \<in> set (mats h x). row_slice h' s = row_slice h s"
    using XR R by (auto simp: row_slice_def split: option.splits)
  ultimately have "load h' x = load h x" by (simp add: load_def row_slices_def)
  with E R M F Y show ?thesis by simp
qed

lemma Vector_Equal_copy:
  "supports_Equal T \<Longrightarrow> \<forall>x \<in> set v. copy_ok T x \<Longrightarrow> Vector_Equal T (map (copier T) v) v = Inr True"
  by (auto simp: Vector_Equal_def copy_ok_def copier_def supports_Equal_def list_all2_map1
      list_all2_same split: option.splits)

lemma Equal_rows_copy:
  "supports_Equal T \<Longrightarrow> \<forall>v \<in> set vs. \<forall>x \<in> set v. copy_ok T x \<Longrightarrow>
     Equal_rows T (map (map (copier T)) vs) (pre @ vs) (length pre) True = Inr True"
proof (induction vs arbitrary: pre)
  case Nil
  then show ?case by simp
next
  case (Cons v vs)
  from Cons.prems have "Vector_Equal T (map (copier T) v) v = Inr True"
    by (intro Vector_Equal_copy) auto
  moreover have "Equal_rows T (map (map (copier T)) vs) ((pre @ [v]) @ vs) (length (pre @ [v])) True
      = Inr True"
    using Cons.prems by (intro Cons.IH) auto
  ultimately show ?case by simp
qed

lemma Matrix_Equal_copy:
  assumes "supports_Equal T" and "\<forall>v \<in> set m. \<forall>x \<in> set v. copy_ok T x"
  shows "Matrix_Equal T (map (map (copier T)) m) m = Inr True"
  using Equal_rows_copy [OF assms, of "[]"] assms(1)
  by (auto simp: Matrix_Equal_def supports_Equal_def split: option.splits)

lemma set_elem_fresh:
  assumes "\<forall>s \<in> set (mats h1 y). \<exists>a. s = Some a \<and> B \<le> a" and "set_elem y i j v h1 = Inr h2"
  shows "mats h2 = mats h1 \<and> (\<forall>a < B. rows h2 a = rows h1 a)"
proof -
  from assms(2) have I: "i < length (mats h1 y)"
    by (auto simp: set_elem_def row_slices_def split: if_splits)
  with assms(1) obtain a where A: "mats h1 y ! i = Some a" and B: "B \<le> a"
    by (metis nth_mem)
  from assms(2) I A have "h2 = h1\<lparr>rows := (rows h1)(a := (row_slice h1 (Some a))[j := v])\<rparr>"
    by (auto simp: set_elem_def row_slices_def split: if_splits)
  with B show ?thesis by auto
qed

lemma set_elems_fresh:
  "\<forall>s \<in> set (mats h1 y). \<exists>a. s = Some a \<and> B \<le> a \<Longrightarrow> set_elems y ws h1 = Inr h2 \<Longrightarrow>
     mats h2 = mats h1 \<and> (\<forall>a < B. rows h2 a = rows h1 a)"
proof (induction ws arbitrary: h1)
  case Nil
  then show ?case by simp
next
  case (Cons w ws)
  obtain i j v where W: "w = (i, j, v)" by (cases w) auto
  from Cons.prems(2) W obtain hm where S: "set_elem y i j v h1 = Inr hm"
    and R: "set_elems y ws hm = Inr h2"
    by (auto split: sum.splits)
  from set_elem_fresh [OF Cons.prems(1) S]
  have M: "mats hm = mats h1" and Q: "\<forall>a < B. rows hm a = rows h1 a" by simp_all
  from Cons.prems(1) M have "\<forall>s \<in> set (mats hm y). \<exists>a. s = Some a \<and> B \<le> a" by simp
  from Cons.IH [OF this R] M Q show ?case by simp
qed

lemma load_unchanged:
  assumes "mats h2 x = mats h1 x" and "\<forall>a. Some a \<in> set (mats h1 x) \<longrightarrow> rows h2 a = rows h1 a"
  shows "load h2 x = load h1 x"
proof -
  have "\<forall>s \<in> set (mats h1 x). row_slice h2 s = row_slice h1 s"
    using assms(2) by (auto simp: row_slice_def split: option.splits)
  with assms(1) show ?thesis by (simp add: load_def row_slices_def)
qed

text \<open>
  Claim C8. For a matrix \<open>x\<close> in use, over an element type that supports \<^verbatim>\<open>Equal\<close> and whose
  elements keep the contract of \<^verbatim>\<open>CopyNewer\<close>, \<^verbatim>\<open>y := x.CopyNew()\<close> returns a matrix with
  \<^verbatim>\<open>y.Equal(x)\<close> true right after the copy; \<open>x\<close> is what it was; the backing array of \<open>y\<close>
  and each of its rows are new, none is shared with \<open>x\<close>; and after any assignments to
  elements of \<open>y\<close>, or to a row of \<open>y\<close>, \<open>x\<close> is still what it was, and so is its encoding.
  For a secret key, \<^verbatim>\<open>CopyNew\<close> returns a pointer to a new struct that \<^verbatim>\<open>Equal\<close> finds equal to
  the receiver when the engine's copy of the ring element is equal to it, and an
  assignment through the new pointer leaves the receiver and its encoding as they were.
  The storage inside a ring element belongs to the engine's \<^verbatim>\<open>CopyNew\<close>.
\<close>

theorem CopyNew_is_equal_and_independent:
  "(in_use h x \<and> supports_Equal T \<and> (\<forall>v \<in> set (load h x). \<forall>a \<in> set v. copy_ok T a)
      \<and> Matrix_CopyNew T x h = Inr (y, h') \<longrightarrow>
        Matrix_Equal T (load h' y) (load h' x) = Inr True
      \<and> load h' x = load h x
      \<and> y \<noteq> x \<and> (\<forall>s \<in> set (row_slices h' y). s \<notin> set (row_slices h' x))
      \<and> (\<forall>ws h''. set_elems y ws h' = Inr h'' \<longrightarrow>
            load h'' x = load h x
            \<and> Matrix_MarshalBinary T (load h'' x) = Matrix_MarshalBinary T (load h x))
      \<and> (\<forall>i s h''. set_row y i s h' = Inr h'' \<longrightarrow>
            load h'' x = load h x
            \<and> Matrix_MarshalBinary T (load h'' x) = Matrix_MarshalBinary T (load h x)))
   \<and> (a < next_key k \<and> engine_copy_ok E (sk_Value (keys k a))
      \<and> SecretKey_CopyNew E (Some a) k = (b, k') \<longrightarrow>
        (\<exists>c. b = Some c \<and> c \<noteq> a \<and> SecretKey_Equal (keys k' c) (keys k' a)
           \<and> keys k' a = keys k a
           \<and> (\<forall>p. keys (set_Value c p k') a = keys k a)
           \<and> (\<forall>p w. SecretKey_WriteTo E (keys (set_Value c p k') a) w =
                     SecretKey_WriteTo E (keys k a) w)))"
proof (intro conjI impI)
  assume A: "in_use h x \<and> supports_Equal T \<and> (\<forall>v \<in> set (load h x). \<forall>a \<in> set v. copy_ok T a)
      \<and> Matrix_CopyNew T x h = Inr (y, h')"
  then have U: "in_use h x" and C: "Matrix_CopyNew T x h = Inr (y, h')" by simp_all
  from Matrix_CopyNew_post [OF U C]
  have Y: "y = brk h" and R: "\<forall>a < brk h. rows h' a = rows h a"
    and M: "\<forall>a. a \<noteq> y \<longrightarrow> mats h' a = mats h a"
    and F: "\<forall>s \<in> set (mats h' y). \<exists>a. s = Some a \<and> brk h < a"
    and LY: "load h' y = map (map (copier T)) (load h x)" and LX: "load h' x = load h x"
    by blast+
  from U have X: "x < brk h" and XR: "\<forall>a. Some a \<in> set (mats h x) \<longrightarrow> a < brk h"
    by (simp_all add: in_use_def row_slices_def)
  from X Y have NE: "y \<noteq> x" by simp
  with M have MX: "mats h' x = mats h x" by simp
  show "Matrix_Equal T (load h' y) (load h' x) = Inr True"
    using A LY LX Matrix_Equal_copy [of T "load h x"] by simp
  show "load h' x = load h x" by (rule LX)
  show "y \<noteq> x" by (rule NE)
  show "\<forall>s \<in> set (row_slices h' y). s \<notin> set (row_slices h' x)"
  proof
    fix s
    assume "s \<in> set (row_slices h' y)"
    with F obtain a where S: "s = Some a" and "brk h < a" by (auto simp: row_slices_def)
    with XR have "Some a \<notin> set (mats h x)" by auto
    with S MX show "s \<notin> set (row_slices h' x)" by (simp add: row_slices_def)
  qed
  have F': "\<forall>s \<in> set (mats h' y). \<exists>a. s = Some a \<and> brk h \<le> a"
    using F by (auto intro: less_imp_le)
  show "\<forall>ws h''. set_elems y ws h' = Inr h'' \<longrightarrow>
            load h'' x = load h x
            \<and> Matrix_MarshalBinary T (load h'' x) = Matrix_MarshalBinary T (load h x)"
  proof (intro allI impI)
    fix ws h''
    assume "set_elems y ws h' = Inr h''"
    from set_elems_fresh [OF F' this]
    have "mats h'' = mats h'" and "\<forall>a < brk h. rows h'' a = rows h' a" by simp_all
    with MX XR have "load h'' x = load h' x"
      by (intro load_unchanged) auto
    with LX show "load h'' x = load h x
            \<and> Matrix_MarshalBinary T (load h'' x) = Matrix_MarshalBinary T (load h x)"
      by simp
  qed
  show "\<forall>i s h''. set_row y i s h' = Inr h'' \<longrightarrow>
            load h'' x = load h x
            \<and> Matrix_MarshalBinary T (load h'' x) = Matrix_MarshalBinary T (load h x)"
  proof (intro allI impI)
    fix i s h''
    assume "set_row y i s h' = Inr h''"
    then have "h'' = h'\<lparr>mats := (mats h')(y := (row_slices h' y)[i := s])\<rparr>"
      by (auto simp: set_row_def split: if_splits)
    with NE have "load h'' x = load h' x"
      by (intro load_unchanged) auto
    with LX show "load h'' x = load h x
            \<and> Matrix_MarshalBinary T (load h'' x) = Matrix_MarshalBinary T (load h x)"
      by simp
  qed
next
  assume "a < next_key k \<and> engine_copy_ok E (sk_Value (keys k a))
      \<and> SecretKey_CopyNew E (Some a) k = (b, k')"
  then show "\<exists>c. b = Some c \<and> c \<noteq> a \<and> SecretKey_Equal (keys k' c) (keys k' a)
           \<and> keys k' a = keys k a
           \<and> (\<forall>p. keys (set_Value c p k') a = keys k a)
           \<and> (\<forall>p w. SecretKey_WriteTo E (keys (set_Value c p k') a) w =
                     SecretKey_WriteTo E (keys k a) w)"
    by (auto simp: SecretKey_CopyNew_def SecretKey_Equal_def engine_copy_ok_def set_Value_def)
qed

text \<open>Values of the examples.\<close>

lemma Matrix_CopyNew_example:
  "Matrix_CopyNew T_uint64 0 h_example =
     Inr (3, \<lparr>mats = (\<lambda>a. if a = 0 then [Some 1, Some 2] else [])(3 := [Some 4, Some 5]),
              rows = (\<lambda>a. if a = 1 then [1] else if a = 2 then [2, 3] else [])
                       (4 := [1], 5 := [2, 3]),
              brk = 6\<rparr>)"
  by (simp add: Matrix_CopyNew_def kind_T_uint64 make_matrix_def make_row_def row_slices_def
      row_slice_def h_example_def numeral_2_eq_2)

lemma in_use_example: "in_use h_example 0"
  by (simp add: in_use_def h_example_def row_slices_def)

lemma load_example: "load h_example 0 = [[1], [2, 3]]"
  by (simp add: load_def row_slices_def row_slice_def h_example_def)

lemma copy_ok_T_uint64: "copy_ok T_uint64 x"
  by (simp add: copy_ok_def kind_T_uint64)

lemma set_elems_example:
  "set_elems 3 [(0, 0, 9)]
     \<lparr>mats = (\<lambda>a. if a = 0 then [Some 1, Some 2] else [])(3 := [Some 4, Some 5]),
      rows = (\<lambda>a. if a = 1 then [1] else if a = 2 then [2, 3] else [])
               (4 := [1 :: 64 word], 5 := [2, 3]),
      brk = 6\<rparr> =
   Inr \<lparr>mats = (\<lambda>a. if a = 0 then [Some 1, Some 2] else [])(3 := [Some 4, Some 5]),
        rows = (\<lambda>a. if a = 1 then [1] else if a = 2 then [2, 3] else [])
               (4 := [9], 5 := [2, 3]),
        brk = 6\<rparr>"
  by (simp add: set_elem_def row_slices_def row_slice_def fun_upd_twist)

lemma load_copy_example:
  "load \<lparr>mats = (\<lambda>a. if a = 0 then [Some 1, Some 2] else [])(3 := [Some 4, Some 5]),
      rows = (\<lambda>a. if a = 1 then [1] else if a = 2 then [2, 3] else [])
               (4 := [9 :: 64 word], 5 := [2, 3]),
      brk = 6\<rparr> 3 = [[9], [2, 3]]"
  by (simp add: load_def row_slices_def row_slice_def)

text \<open>
  The theorem of C8 at the matrix of \<open>h_example\<close>, whose copy gets 9 assigned to its first
  element, and at the key of \<open>k_example\<close>.
\<close>

theorem CopyNew_is_equal_and_independent_witness:
  "Matrix_CopyNew T_uint64 0 h_example =
     Inr (3, \<lparr>mats = (\<lambda>a. if a = 0 then [Some 1, Some 2] else [])(3 := [Some 4, Some 5]),
              rows = (\<lambda>a. if a = 1 then [1] else if a = 2 then [2, 3] else [])
                       (4 := [1], 5 := [2, 3]),
              brk = 6\<rparr>)
   \<and> load h_example 0 = [[1], [2, 3]]
   \<and> Matrix_Equal T_uint64
        (load \<lparr>mats = (\<lambda>a. if a = 0 then [Some 1, Some 2] else [])(3 := [Some 4, Some 5]),
              rows = (\<lambda>a. if a = 1 then [1] else if a = 2 then [2, 3] else [])
                       (4 := [1], 5 := [2, 3]),
              brk = 6\<rparr> 3)
        (load \<lparr>mats = (\<lambda>a. if a = 0 then [Some 1, Some 2] else [])(3 := [Some 4, Some 5]),
              rows = (\<lambda>a. if a = 1 then [1] else if a = 2 then [2, 3] else [])
                       (4 := [1], 5 := [2, 3]),
              brk = 6\<rparr> 0) = Inr True
   \<and> set_elems 3 [(0, 0, 9)]
        \<lparr>mats = (\<lambda>a. if a = 0 then [Some 1, Some 2] else [])(3 := [Some 4, Some 5]),
         rows = (\<lambda>a. if a = 1 then [1] else if a = 2 then [2, 3] else [])
                  (4 := [1 :: 64 word], 5 := [2, 3]),
         brk = 6\<rparr> =
       Inr \<lparr>mats = (\<lambda>a. if a = 0 then [Some 1, Some 2] else [])(3 := [Some 4, Some 5]),
            rows = (\<lambda>a. if a = 1 then [1] else if a = 2 then [2, 3] else [])
                     (4 := [9], 5 := [2, 3]),
            brk = 6\<rparr>
   \<and> load \<lparr>mats = (\<lambda>a. if a = 0 then [Some 1, Some 2] else [])(3 := [Some 4, Some 5]),
            rows = (\<lambda>a. if a = 1 then [1] else if a = 2 then [2, 3] else [])
                     (4 := [9 :: 64 word], 5 := [2, 3]),
            brk = 6\<rparr> 3 = [[9], [2, 3]]
   \<and> load \<lparr>mats = (\<lambda>a. if a = 0 then [Some 1, Some 2] else [])(3 := [Some 4, Some 5]),
            rows = (\<lambda>a. if a = 1 then [1] else if a = 2 then [2, 3] else [])
                     (4 := [9 :: 64 word], 5 := [2, 3]),
            brk = 6\<rparr> 0 = [[1], [2, 3]]
   \<and> (\<exists>c. fst (SecretKey_CopyNew E_word (Some 0) k_example) = Some c \<and> c \<noteq> 0
         \<and> SecretKey_Equal (keys (snd (SecretKey_CopyNew E_word (Some 0) k_example)) c)
              (keys (snd (SecretKey_CopyNew E_word (Some 0) k_example)) 0)
         \<and> keys (set_Value c 7 (snd (SecretKey_CopyNew E_word (Some 0) k_example))) 0 =
             keys k_example 0)"
proof -
  let ?H' = "\<lparr>mats = (\<lambda>a. if a = 0 then [Some 1, Some 2] else [])(3 := [Some 4, Some 5]),
              rows = (\<lambda>a. if a = 1 then [1 :: 64 word] else if a = 2 then [2, 3] else [])
                       (4 := [1], 5 := [2, 3]),
              brk = 6\<rparr>"
  let ?H'' = "\<lparr>mats = (\<lambda>a. if a = 0 then [Some 1, Some 2] else [])(3 := [Some 4, Some 5]),
              rows = (\<lambda>a. if a = 1 then [1 :: 64 word] else if a = 2 then [2, 3] else [])
                       (4 := [9], 5 := [2, 3]),
              brk = 6\<rparr>"
  have V: "\<forall>v \<in> set (load h_example 0). \<forall>a \<in> set v. copy_ok T_uint64 a"
    by (simp add: copy_ok_T_uint64)
  have K: "0 < next_key k_example" by (simp add: k_example_def)
  have Ec: "engine_copy_ok E_word (sk_Value (keys k_example 0))"
    by (simp add: engine_copy_ok_def E_word_def)
  have P: "SecretKey_CopyNew E_word (Some 0) k_example =
      (fst (SecretKey_CopyNew E_word (Some 0) k_example),
       snd (SecretKey_CopyNew E_word (Some 0) k_example))" by simp
  note t = CopyNew_is_equal_and_independent [where h = h_example and x = 0 and T = T_uint64
      and y = 3 and h' = ?H' and a = 0 and k = k_example and E = E_word
      and b = "fst (SecretKey_CopyNew E_word (Some 0) k_example)"
      and k' = "snd (SecretKey_CopyNew E_word (Some 0) k_example)"]
  from t in_use_example supports_Equal_T_uint64 V Matrix_CopyNew_example
  have M: "Matrix_Equal T_uint64 (load ?H' 3) (load ?H' 0) = Inr True"
    and I: "\<forall>ws h''. set_elems 3 ws ?H' = Inr h'' \<longrightarrow> load h'' 0 = load h_example 0"
    by blast+
  from I set_elems_example have L: "load ?H'' 0 = [[1], [2, 3]]"
    by (simp only: load_example)
  from t K Ec P
  have S: "\<exists>c. fst (SecretKey_CopyNew E_word (Some 0) k_example) = Some c \<and> c \<noteq> 0
         \<and> SecretKey_Equal (keys (snd (SecretKey_CopyNew E_word (Some 0) k_example)) c)
              (keys (snd (SecretKey_CopyNew E_word (Some 0) k_example)) 0)
         \<and> keys (set_Value c 7 (snd (SecretKey_CopyNew E_word (Some 0) k_example))) 0 =
             keys k_example 0"
    by blast
  from Matrix_CopyNew_example load_example M set_elems_example load_copy_example L S
  show ?thesis by blast
qed

end
